theory Spec2Isabelle
  imports Complex_Main "HOL-Library.Multiset"
begin

section \<open>Trade records and the trade-history dashboard\<close>

text \<open>
  The record type follows the interface \<^verbatim>\<open>TradeRecord\<close> of \<^verbatim>\<open>utils/mockData.ts\<close>.
  JavaScript numbers are modelled by \<^typ>\<open>real\<close>: the values a JSON payload can carry are
  finite, so the comparisons \<^verbatim>\<open>>\<close> and \<^verbatim>\<open><\<close> of the source are the order of the reals.
  The field \<^verbatim>\<open>id\<close> is called \<open>id_str\<close> (the name \<open>id\<close> is the identity function of HOL),
  and \<^verbatim>\<open>timestamp\<close> holds the epoch milliseconds the ISO string is printed from.
  The dashboard compares \<^verbatim>\<open>coin\<close>, \<^verbatim>\<open>strategy\<close> and \<^verbatim>\<open>status\<close> with the strings of its
  select boxes, so they are strings here.
\<close>

datatype order_type = BUY | SELL

record TradeRecord =
  id_str :: string
  timestamp :: int
  coin :: string
  strategy :: string
  orderType :: order_type
  quantity :: real
  executionPrice :: real
  currentPrice :: real
  pnl :: real
  status :: string

text \<open>The state \<^verbatim>\<open>filters\<close> of \<^verbatim>\<open>TradeHistoryDashboard\<close>; its initial value and the value
  the button "Clear Filters" sets.\<close>

record Filters =
  filter_coin :: string
  filter_strategy :: string
  filter_status :: string

definition initial_filters :: Filters where
  "initial_filters = \<lparr>filter_coin = ''All'', filter_strategy = ''All'', filter_status = ''All''\<rparr>"

text \<open>
  \<^verbatim>\<open>
  const filteredTrades = trades.filter(trade => {
    if (filters.coin !== 'All' && trade.coin !== filters.coin) return false;
    if (filters.strategy !== 'All' && trade.strategy !== filters.strategy) return false;
    if (filters.status !== 'All' && trade.status !== filters.status) return false;
    return true;
  });
  \<close>
\<close>

definition trade_passes :: "Filters \<Rightarrow> TradeRecord \<Rightarrow> bool" where
  "trade_passes filters trade =
     (if filter_coin filters \<noteq> ''All'' \<and> coin trade \<noteq> filter_coin filters then False
      else if filter_strategy filters \<noteq> ''All'' \<and> strategy trade \<noteq> filter_strategy filters then False
      else if filter_status filters \<noteq> ''All'' \<and> status trade \<noteq> filter_status filters then False
      else True)"

definition filteredTrades :: "Filters \<Rightarrow> TradeRecord list \<Rightarrow> TradeRecord list" where
  "filteredTrades filters trades = filter (trade_passes filters) trades"

text \<open>
  \<^verbatim>\<open>
  const totalTrades = filteredTrades.length;
  const executedTrades = filteredTrades.filter(t => t.status === 'Executed');
  const winningTrades = executedTrades.filter(t => t.pnl > 0);
  const losingTrades = executedTrades.filter(t => t.pnl < 0);
  \<close>
  Each of them is a function of the filtered list.
\<close>

definition totalTrades :: "TradeRecord list \<Rightarrow> nat" where
  "totalTrades filtered = length filtered"

definition executedTrades :: "TradeRecord list \<Rightarrow> TradeRecord list" where
  "executedTrades filtered = filter (\<lambda>t. status t = ''Executed'') filtered"

definition winningTrades :: "TradeRecord list \<Rightarrow> TradeRecord list" where
  "winningTrades filtered = filter (\<lambda>t. pnl t > 0) (executedTrades filtered)"

definition losingTrades :: "TradeRecord list \<Rightarrow> TradeRecord list" where
  "losingTrades filtered = filter (\<lambda>t. pnl t < 0) (executedTrades filtered)"

text \<open>The executed trades that are neither winning nor losing: the ones that broke even.\<close>

definition breakEvenTrades :: "TradeRecord list \<Rightarrow> TradeRecord list" where
  "breakEvenTrades filtered = filter (\<lambda>t. pnl t = 0) (executedTrades filtered)"

text \<open>An executed trade that closed at its entry price.\<close>

definition flat_trade :: TradeRecord where
  "flat_trade = \<lparr>id_str = ''trade-0'', timestamp = 0, coin = ''BTC'', strategy = ''SMA_Crossover'',
     orderType = SELL, quantity = 1, executionPrice = 45000, currentPrice = 45000, pnl = 0,
     status = ''Executed''\<rparr>"

section \<open>The optimization dashboard\<close>

text \<open>
  A row of the backtest results, with the fields of \<^verbatim>\<open>generateBacktestResults\<close>
  (\<^verbatim>\<open>utils/mockData.ts\<close>). The fields \<^verbatim>\<open>strategy\<close>, \<^verbatim>\<open>coin\<close>, \<^verbatim>\<open>return\<close> and \<^verbatim>\<open>trades\<close> carry
  the prefix \<open>bt_\<close>, the first two being fields of \<open>TradeRecord\<close> already.
\<close>

record BacktestResult =
  bt_strategy :: string
  bt_coin :: string
  bt_return :: real
  sharpe :: real
  cagr :: real
  maxDD :: real
  winRate :: real
  bt_trades :: nat

definition generateBacktestResults :: "BacktestResult list" where
  "generateBacktestResults =
    [\<lparr>bt_strategy = ''SMA_Crossover'', bt_coin = ''BTC'', bt_return = 24.5, sharpe = 2.8,
       cagr = 18.2, maxDD = -8.5, winRate = 67, bt_trades = 124\<rparr>,
     \<lparr>bt_strategy = ''Momentum'', bt_coin = ''ETH'', bt_return = 32.1, sharpe = 3.2,
       cagr = 22.4, maxDD = -12.1, winRate = 71, bt_trades = 156\<rparr>,
     \<lparr>bt_strategy = ''RSI'', bt_coin = ''SOL'', bt_return = 28.7, sharpe = 2.9,
       cagr = 20.5, maxDD = -10.2, winRate = 69, bt_trades = 143\<rparr>,
     \<lparr>bt_strategy = ''MACD'', bt_coin = ''XRP'', bt_return = 19.3, sharpe = 2.3,
       cagr = 15.8, maxDD = -7.8, winRate = 64, bt_trades = 98\<rparr>,
     \<lparr>bt_strategy = ''BollingerBands'', bt_coin = ''DOGE'', bt_return = 15.2, sharpe = 1.9,
       cagr = 12.4, maxDD = -9.5, winRate = 61, bt_trades = 87\<rparr>,
     \<lparr>bt_strategy = ''MeanReversion'', bt_coin = ''ADA'', bt_return = 21.8, sharpe = 2.5,
       cagr = 17.2, maxDD = -8.9, winRate = 65, bt_trades = 112\<rparr>]"

text \<open>
  \<^verbatim>\<open>
  const bestStrategy = results.length > 0 ? results.reduce((prev, current) =>
    (prev.sharpe > current.sharpe) ? prev : current
  ) : { strategy: "N/A", coin: "N/A", sharpe: 0, return: 0 };
  \<close>
  \<^verbatim>\<open>reduce\<close> without an initial value starts from the first element and folds the rest
  from the left; on an empty array it throws a TypeError. The first version of the
  dashboard calls it unguarded (\<open>bestStrategy_unguarded\<close>), the later one guards it and
  falls back to an object with the four fields the page reads; the other fields of the
  fallback are absent in the source and zero here.
\<close>

datatype js_error = TypeError | SyntaxError | NetworkError

definition better :: "BacktestResult \<Rightarrow> BacktestResult \<Rightarrow> BacktestResult" where
  "better prev current = (if sharpe prev > sharpe current then prev else current)"

definition reduce :: "('a \<Rightarrow> 'a \<Rightarrow> 'a) \<Rightarrow> 'a list \<Rightarrow> js_error + 'a" where
  "reduce f xs = (case xs of [] \<Rightarrow> Inl TypeError | x # rest \<Rightarrow> Inr (foldl f x rest))"

definition bestStrategy_unguarded :: "BacktestResult list \<Rightarrow> js_error + BacktestResult" where
  "bestStrategy_unguarded results = reduce better results"

definition not_available :: BacktestResult where
  "not_available = \<lparr>bt_strategy = ''N/A'', bt_coin = ''N/A'', bt_return = 0, sharpe = 0,
     cagr = 0, maxDD = 0, winRate = 0, bt_trades = 0\<rparr>"

definition bestStrategy :: "BacktestResult list \<Rightarrow> BacktestResult" where
  "bestStrategy results =
     (if length results > 0
      then (case reduce better results of Inr best \<Rightarrow> best | Inl _ \<Rightarrow> not_available)
      else not_available)"

text \<open>
  The state of the component, and what \<^verbatim>\<open>handleRunBacktest\<close> does to the world around it:
  the alerts it shows and the requests it sends, in order. The alert texts are named by
  a datatype.
\<close>

datatype alert =
    UploadFirst | SelectDates | InvalidDate | FromAfterTo
  | ServerError string | FailedToStart | ConnectError

record backtest_request =
  req_strategy :: string
  from_date :: string
  to_date :: string
  req_capital :: real

text \<open>
  The body of a response, as \<^verbatim>\<open>response.json()\<close> gives it: the call throws
  (\<open>Unparseable\<close>), or yields \<^verbatim>\<open>null\<close>, or an object, of which the handler reads
  \<^verbatim>\<open>results\<close> (\<open>Some\<close> when it is an array) and \<^verbatim>\<open>detail\<close> (as printed in the alert).
\<close>

datatype response_body =
    Unparseable
  | NullBody
  | Body (body_results: "BacktestResult list option") (body_detail: string)

datatype fetch_outcome =
    Rejected
  | Response (ok: bool) (json: response_body)

record dashboard =
  hasResults :: bool
  results :: "BacktestResult list"
  isRunning :: bool
  isFileUploaded :: bool
  fromDate :: string
  toDate :: string
  capital :: real
  selectedStrategy :: string
  alerts :: "alert list"
  requests :: "backtest_request list"

definition initial_dashboard :: dashboard where
  "initial_dashboard = \<lparr>hasResults = False, results = generateBacktestResults,
     isRunning = False, isFileUploaded = False, fromDate = ''2024-01-01'',
     toDate = ''2024-12-14'', capital = 10000, selectedStrategy = ''All Strategies'',
     alerts = [], requests = []\<rparr>"

definition show_alert :: "alert \<Rightarrow> dashboard \<Rightarrow> dashboard" where
  "show_alert a st = st\<lparr>alerts := alerts st @ [a]\<rparr>"

text \<open>
  The part of \<^verbatim>\<open>handleRunBacktest\<close> after the request was sent: the \<^verbatim>\<open>try\<close> block on the
  outcome of \<^verbatim>\<open>fetch\<close>, its \<^verbatim>\<open>catch\<close> (a rejected fetch, a body that does not parse on the
  success path, or a \<^verbatim>\<open>null\<close> body whose field is read) and its \<^verbatim>\<open>finally\<close>.
\<close>

definition handle_outcome :: "fetch_outcome \<Rightarrow> dashboard \<Rightarrow> dashboard" where
  "handle_outcome outcome st =
     (let st' =
        (case outcome of
           Rejected \<Rightarrow> show_alert ConnectError st
         | Response is_ok body \<Rightarrow>
             if is_ok then
               (case body of
                  Unparseable \<Rightarrow> show_alert ConnectError st
                | NullBody \<Rightarrow> show_alert ConnectError st
                | Body rs _ \<Rightarrow>
                    (case rs of
                       Some data_results \<Rightarrow> st\<lparr>results := data_results\<rparr>
                     | None \<Rightarrow> st\<lparr>results := generateBacktestResults\<rparr>)\<lparr>hasResults := True\<rparr>)
             else
               (case body of
                  Unparseable \<Rightarrow> show_alert FailedToStart st
                | NullBody \<Rightarrow> show_alert FailedToStart st
                | Body _ d \<Rightarrow> show_alert (ServerError d) st))
      in st'\<lparr>isRunning := False\<rparr>)"

text \<open>
  \<^verbatim>\<open>handleRunBacktest\<close>. \<open>parseDate\<close> is \<^verbatim>\<open>new Date(s).getTime()\<close>, \<open>None\<close> for \<^verbatim>\<open>NaN\<close>;
  \<open>server\<close> is what \<^verbatim>\<open>fetch\<close> comes back with for a request. The four guards return
  before anything else happens.
\<close>

definition handleRunBacktest ::
  "(string \<Rightarrow> int option) \<Rightarrow> (backtest_request \<Rightarrow> fetch_outcome) \<Rightarrow> dashboard \<Rightarrow> dashboard" where
  "handleRunBacktest parseDate server st =
     (if \<not> isFileUploaded st then show_alert UploadFirst st
      else if fromDate st = [] \<or> toDate st = [] then show_alert SelectDates st
      else
        (case (parseDate (fromDate st), parseDate (toDate st)) of
           (Some start, Some end_time) \<Rightarrow>
             if start > end_time then show_alert FromAfterTo st
             else
               (let request = \<lparr>req_strategy = selectedStrategy st, from_date = fromDate st,
                                to_date = toDate st, req_capital = capital st\<rparr>;
                    st1 = st\<lparr>isRunning := True, hasResults := False,
                             requests := requests st @ [request]\<rparr>
                in handle_outcome (server request) st1)
         | _ \<Rightarrow> show_alert InvalidDate st))"

text \<open>The preconditions of a run: a file is uploaded, both dates are filled in and parse,
  and the start is not after the end.\<close>

definition can_run :: "(string \<Rightarrow> int option) \<Rightarrow> dashboard \<Rightarrow> bool" where
  "can_run parseDate st =
     (isFileUploaded st \<and> fromDate st \<noteq> [] \<and> toDate st \<noteq> []
      \<and> (case (parseDate (fromDate st), parseDate (toDate st)) of
            (Some start, Some end_time) \<Rightarrow> start \<le> end_time
          | _ \<Rightarrow> False))"

text \<open>A date parser for examples: two strings parse, to their day numbers.\<close>

definition example_parse :: "string \<Rightarrow> int option" where
  "example_parse s =
     (if s = ''2024-01-01'' then Some 19723
      else if s = ''2024-12-14'' then Some 20071 else None)"

text \<open>Two states with a file uploaded: one with the dates the wrong way round (and results
  of an earlier run on display), one as the page opens; and a server that cannot be reached.\<close>

definition reversed_dates :: dashboard where
  "reversed_dates = initial_dashboard\<lparr>isFileUploaded := True, fromDate := ''2024-12-14'',
     toDate := ''2024-01-01'', hasResults := True\<rparr>"

definition ready_dashboard :: dashboard where
  "ready_dashboard = initial_dashboard\<lparr>isFileUploaded := True\<rparr>"

definition no_server :: "backtest_request \<Rightarrow> fetch_outcome" where
  "no_server request = Rejected"

section \<open>The socket provider\<close>

text \<open>
  \<^verbatim>\<open>WebSocketProvider\<close> of \<^verbatim>\<open>hooks/useWebSocketManager.tsx\<close>. The state is the two React
  states and refs the handlers touch, the delays of the pending \<^verbatim>\<open>setTimeout\<close> calls (each
  of them calls \<^verbatim>\<open>connect\<close> when it fires) and the number of sockets \<^verbatim>\<open>connect\<close> has opened.
  \<^verbatim>\<open>
  ws.onopen = () => { reconnectRef.current = 0; if (!mounted) return; setConnected(true); };
  ws.onclose = () => {
    if (!mounted) return;
    setConnected(false);
    reconnectRef.current = Math.min(30000, (reconnectRef.current || 1000) * 2 || 1000);
    setTimeout(() => connect(), reconnectRef.current || 1000);
  };
  \<close>
  On numbers \<^verbatim>\<open>a || b\<close> is \<open>b\<close> when \<open>a\<close> is zero and \<open>a\<close> otherwise.
\<close>

record ws_provider =
  mounted :: bool
  connected :: bool
  reconnect :: nat
  timers :: "nat list"
  sockets :: nat

definition js_or :: "nat \<Rightarrow> nat \<Rightarrow> nat" where
  "js_or a b = (if a = 0 then b else a)"

definition initial_provider :: ws_provider where
  "initial_provider = \<lparr>mounted = True, connected = False, reconnect = 0, timers = [], sockets = 0\<rparr>"

definition connect :: "ws_provider \<Rightarrow> ws_provider" where
  "connect st = st\<lparr>sockets := sockets st + 1\<rparr>"

definition on_open :: "ws_provider \<Rightarrow> ws_provider" where
  "on_open st =
     (let st1 = st\<lparr>reconnect := 0\<rparr>
      in if \<not> mounted st1 then st1 else st1\<lparr>connected := True\<rparr>)"

definition on_close :: "ws_provider \<Rightarrow> ws_provider" where
  "on_close st =
     (if \<not> mounted st then st
      else
        (let r = min 30000 (js_or (js_or (reconnect st) 1000 * 2) 1000)
         in st\<lparr>connected := False, reconnect := r, timers := timers st @ [js_or r 1000]\<rparr>))"

text \<open>
  \<^verbatim>\<open>ws.onerror = (e) => { console.error('WebSocket error', e); try { ws.close(); } catch (e) {} };\<close>
  The handler itself touches no state; closing the socket makes the browser deliver the
  close event, so for the state an error is the close that follows it.
\<close>

definition on_error :: "ws_provider \<Rightarrow> ws_provider" where
  "on_error st = on_close st"

definition timer_fires :: "ws_provider \<Rightarrow> ws_provider" where
  "timer_fires st =
     (case timers st of
        [] \<Rightarrow> st
      | delay # rest \<Rightarrow> connect (st\<lparr>timers := rest\<rparr>))"

definition unmount :: "ws_provider \<Rightarrow> ws_provider" where
  "unmount st = st\<lparr>mounted := False\<rparr>"

text \<open>
  \<open>failures n st\<close>: the socket of \<open>st\<close> closes without opening, the retry fires and opens
  the next socket, \<open>n\<close> times in a row. \<open>retry_delay n\<close> is the delay the provider waits
  after the failure number \<open>n + 1\<close> of a run that starts when the effect first connects.
\<close>

fun failures :: "nat \<Rightarrow> ws_provider \<Rightarrow> ws_provider" where
  "failures 0 st = st"
| "failures (Suc n) st = timer_fires (on_close (failures n st))"

definition retry_delay :: "nat \<Rightarrow> nat list" where
  "retry_delay n = timers (on_close (failures n (connect initial_provider)))"

section \<open>The API client\<close>

text \<open>
  \<^verbatim>\<open>api/apiClient.ts\<close>. An \<^verbatim>\<open>async\<close> function returns a value or throws: its result is a sum,
  \<open>Inl\<close> the exception that leaves the function. \<open>then_do\<close> is the sequencing of \<^verbatim>\<open>await\<close>
  (an exception skips the rest), \<open>try_catch\<close> the \<^verbatim>\<open>try { ... } catch (err) { ... }\<close> block.
  \<open>fetch\<close> rejects or resolves with a response, whose \<^verbatim>\<open>json()\<close> throws or gives the
  parsed value; \<open>stringify\<close> is \<^verbatim>\<open>JSON.stringify\<close> on the caller's \<^verbatim>\<open>params\<close>, which throws
  on a value it cannot serialise. \<^verbatim>\<open>null\<close> is \<open>None\<close>. The call of \<^verbatim>\<open>console.error\<close> in the
  handlers is left out.
\<close>

datatype 'v api_response = ApiResponse (api_ok: bool) (api_json: "js_error + 'v")

datatype api_body =
    NoBody
  | RegisterBody string string string
  | UnregisterBody string
  | StartBody string string real

record api_request =
  url :: string
  post :: bool
  body :: api_body

definition then_do :: "js_error + 'a \<Rightarrow> ('a \<Rightarrow> js_error + 'b) \<Rightarrow> js_error + 'b" where
  "then_do m f = (case m of Inl err \<Rightarrow> Inl err | Inr x \<Rightarrow> f x)"

definition try_catch :: "js_error + 'a \<Rightarrow> (js_error \<Rightarrow> js_error + 'a) \<Rightarrow> js_error + 'a" where
  "try_catch block handler = (case block of Inl err \<Rightarrow> handler err | Inr x \<Rightarrow> Inr x)"

text \<open>
  \<^verbatim>\<open>
  export async function registerStrategy(strategyName: string, coin: string, params: any = {}) {
    try {
      const res = await fetch(`${API_BASE}/api/strategies/register`, {
        method: 'POST', headers: { 'Content-Type': 'application/json' },
        body: JSON.stringify({ strategy_name: strategyName, coin, params })
      });
      return await res.json();
    } catch (err) { console.error('registerStrategy error', err); return null; }
  }
  \<close>
  and likewise \<^verbatim>\<open>unregisterStrategy\<close>, \<^verbatim>\<open>startEngine\<close> and \<^verbatim>\<open>stopEngine\<close>.
\<close>

definition register_request :: "string \<Rightarrow> string \<Rightarrow> string \<Rightarrow> string \<Rightarrow> api_request" where
  "register_request api_base strategyName coin_name ps =
     \<lparr>url = api_base @ ''/api/strategies/register'', post = True,
      body = RegisterBody strategyName coin_name ps\<rparr>"

definition registerStrategy ::
  "string \<Rightarrow> ('p \<Rightarrow> js_error + string) \<Rightarrow> (api_request \<Rightarrow> js_error + 'v api_response)
    \<Rightarrow> string \<Rightarrow> string \<Rightarrow> 'p \<Rightarrow> js_error + 'v option" where
  "registerStrategy api_base stringify fetch strategyName coin_name params =
     try_catch
       (then_do (stringify params) (\<lambda>ps.
        then_do (fetch (register_request api_base strategyName coin_name ps)) (\<lambda>res.
        then_do (api_json res) (\<lambda>v. Inr (Some v)))))
       (\<lambda>err. Inr None)"

definition unregister_request :: "string \<Rightarrow> string \<Rightarrow> api_request" where
  "unregister_request api_base strategyId =
     \<lparr>url = api_base @ ''/api/strategies/unregister'', post = True,
      body = UnregisterBody strategyId\<rparr>"

definition unregisterStrategy ::
  "string \<Rightarrow> (api_request \<Rightarrow> js_error + 'v api_response) \<Rightarrow> string \<Rightarrow> js_error + 'v option" where
  "unregisterStrategy api_base fetch strategyId =
     try_catch
       (then_do (fetch (unregister_request api_base strategyId)) (\<lambda>res.
        then_do (api_json res) (\<lambda>v. Inr (Some v))))
       (\<lambda>err. Inr None)"

text \<open>
  \<^verbatim>\<open>
  const body = JSON.stringify({ data_source: opts.data_source || 'synthetic',
    coins: opts.coins || 'BTC,ETH,BNB', interval: opts.interval || 1 });
  \<close>
  Each option is absent (\<open>None\<close>) or given; an empty string and the interval zero are
  falsy and give way to the default as an absent option does.
\<close>

record start_opts =
  data_source :: "string option"
  opt_coins :: "string option"
  interval :: "real option"

definition or_string :: "string option \<Rightarrow> string \<Rightarrow> string" where
  "or_string opt dflt = (case opt of None \<Rightarrow> dflt | Some s \<Rightarrow> if s = [] then dflt else s)"

definition or_number :: "real option \<Rightarrow> real \<Rightarrow> real" where
  "or_number opt dflt = (case opt of None \<Rightarrow> dflt | Some x \<Rightarrow> if x = 0 then dflt else x)"

definition start_request :: "string \<Rightarrow> start_opts \<Rightarrow> api_request" where
  "start_request api_base opts =
     \<lparr>url = api_base @ ''/api/engine/start'', post = True,
      body = StartBody (or_string (data_source opts) ''synthetic'')
               (or_string (opt_coins opts) ''BTC,ETH,BNB'') (or_number (interval opts) 1)\<rparr>"

definition startEngine ::
  "string \<Rightarrow> (api_request \<Rightarrow> js_error + 'v api_response) \<Rightarrow> start_opts \<Rightarrow> js_error + 'v option" where
  "startEngine api_base fetch opts =
     try_catch
       (then_do (fetch (start_request api_base opts)) (\<lambda>res.
        then_do (api_json res) (\<lambda>v. Inr (Some v))))
       (\<lambda>err. Inr None)"

definition stop_request :: "string \<Rightarrow> api_request" where
  "stop_request api_base = \<lparr>url = api_base @ ''/api/engine/stop'', post = True, body = NoBody\<rparr>"

definition stopEngine ::
  "string \<Rightarrow> (api_request \<Rightarrow> js_error + 'v api_response) \<Rightarrow> js_error + 'v option" where
  "stopEngine api_base fetch =
     try_catch
       (then_do (fetch (stop_request api_base)) (\<lambda>res.
        then_do (api_json res) (\<lambda>v. Inr (Some v))))
       (\<lambda>err. Inr None)"

text \<open>What a call comes back with when the request \<open>request\<close> was sent: the parsed body
  of the response, or \<^verbatim>\<open>null\<close> when the fetch was rejected or the body did not parse.\<close>

definition parsed_or_null ::
  "(api_request \<Rightarrow> js_error + 'v api_response) \<Rightarrow> api_request \<Rightarrow> 'v option" where
  "parsed_or_null fetch request =
     (case fetch request of
        Inl err \<Rightarrow> None
      | Inr res \<Rightarrow> (case api_json res of Inl err \<Rightarrow> None | Inr v \<Rightarrow> Some v))"

section \<open>The bounded queue between the producer and the dispatcher\<close>

text \<open>
  Modelled from the spec: the ingestion pipeline, its bounded queue and the dispatcher loop
  belong to the engine, whose code is not among the sources. The specification gives the
  tick (instrument, price, volume, timestamp) and the queue: the producer pulls ticks from
  the source at its rate and pushes each onto a queue of capacity \<open>C\<close>; "if the queue is
  full, push blocks the producer rather than dropping ticks"; the single reader "drains the
  bounded queue one tick at a time", in the order enqueued; "push blocks when full, pop
  blocks when empty".

  A state holds the ticks the source has yet to deliver, the queue, and the ticks the
  dispatcher has taken, oldest first. An operation that blocks is not enabled: it has no
  next state (\<open>None\<close>) and leaves the state as it is. A schedule is a list of events, run
  from left to right; it is a run of the system when every event is enabled in its turn.
\<close>

record tick =
  tick_instrument :: string
  tick_price :: real
  tick_volume :: real
  tick_time :: int

record pipeline =
  source :: "tick list"
  queue :: "tick list"
  dispatched :: "tick list"

definition start_pipeline :: "tick list \<Rightarrow> pipeline" where
  "start_pipeline ticks = \<lparr>source = ticks, queue = [], dispatched = []\<rparr>"

text \<open>Modelled from the spec: "pushing each onto a bounded queue of capacity C. ...
  If the queue is full, push blocks the producer (backpressure) rather than dropping
  ticks". With nothing left at the source there is nothing to push.\<close>

definition push :: "nat \<Rightarrow> pipeline \<Rightarrow> pipeline option" where
  "push C st =
     (case source st of
        [] \<Rightarrow> None
      | t # rest \<Rightarrow>
          if length (queue st) < C then Some (st\<lparr>source := rest, queue := queue st @ [t]\<rparr>)
          else None)"

text \<open>Modelled from the spec: "a single logical reader drains the bounded queue one tick
  at a time (ordering of ticks as enqueued is preserved; no reordering)"; "pop blocks when
  empty".\<close>

definition pop :: "pipeline \<Rightarrow> pipeline option" where
  "pop st =
     (case queue st of
        [] \<Rightarrow> None
      | t # rest \<Rightarrow> Some (st\<lparr>queue := rest, dispatched := dispatched st @ [t]\<rparr>))"

datatype pipeline_event = Push | Pop

definition pipeline_step :: "nat \<Rightarrow> pipeline_event \<Rightarrow> pipeline \<Rightarrow> pipeline option" where
  "pipeline_step C e st = (case e of Push \<Rightarrow> push C st | Pop \<Rightarrow> pop st)"

fun run_pipeline :: "nat \<Rightarrow> pipeline_event list \<Rightarrow> pipeline \<Rightarrow> pipeline option" where
  "run_pipeline C [] st = Some st"
| "run_pipeline C (e # es) st =
     (case pipeline_step C e st of
        None \<Rightarrow> None
      | Some st' \<Rightarrow> run_pipeline C es st')"

text \<open>The work left: a tick still at the source needs a push and a pop, a tick in the
  queue a pop.\<close>

definition pending_work :: "pipeline \<Rightarrow> nat" where
  "pending_work st = 2 * length (source st) + length (queue st)"

text \<open>Three ticks of one instrument, for examples.\<close>

definition three_ticks :: "tick list" where
  "three_ticks =
     [\<lparr>tick_instrument = ''BTC'', tick_price = 45000, tick_volume = 1, tick_time = 0\<rparr>,
      \<lparr>tick_instrument = ''BTC'', tick_price = 45500, tick_volume = 1, tick_time = 60\<rparr>,
      \<lparr>tick_instrument = ''BTC'', tick_price = 45200, tick_volume = 2, tick_time = 120\<rparr>]"

section \<open>Dispatch, evaluation and the shared state store\<close>

text \<open>
  Modelled from the spec: the dispatcher, the worker pool and the shared state store belong
  to the engine, whose code is not among the sources. From the specification:
  \<^item> a strategy is "a pure decision unit"; \<^verbatim>\<open>evaluate(tick)\<close> returns an optional order
    intent \<^verbatim>\<open>{action, quantity}\<close>, or throws;
  \<^item> for each tick the dispatcher "looks up the subset of registered StrategyInstances whose
    instrumentId matches and whose status is Active, and submits one evaluation task per
    match";
  \<^item> workers "have no direct reference to the Shared State Store; they receive the minimal
    immutable inputs (strategy parameters + tick) and return a value"; a worker that throws
    "is caught, logged as a per-strategy error count", the failure "converted to a no-op
    result plus a logged counter increment";
  \<^item> \<^verbatim>\<open>recordTrade\<close> updates position and entry price of the owning instance, computes the
    realized P&L, updates "both GlobalMetrics and the specific StrategyMetrics" and appends
    the trade record.

  The specification does not give the arithmetic of the metrics, so it is a parameter
  (\<open>arithmetic\<close>): \<open>'m\<close> is what the store keeps for one strategy (position, entry price
  and its metrics), \<open>'g\<close> the global metrics; \<open>realize\<close> computes the realized P&L of an
  intent against the owner's account, \<open>account\<close> and \<open>aggregate\<close> apply a trade to the
  owner's account and to the global metrics. Results are collected in the order the tasks
  were submitted.
\<close>

datatype action = Buy | Sell

record OrderIntent =
  intent_action :: action
  intent_quantity :: real

datatype evaluation = Raised | Returned "OrderIntent option"

datatype lifecycle = Active | Idle | Paused | Error

record StrategyInstance =
  strategyId :: string
  instrumentId :: string
  lifecycle :: lifecycle
  evaluate :: "tick \<Rightarrow> evaluation"

record trade_entry =
  entry_instrument :: string
  entry_strategy :: string
  entry_action :: action
  entry_price :: real
  entry_quantity :: real
  entry_time :: int
  realizedPnL :: real

record ('g, 'm) store =
  globalMetrics :: 'g
  strategyMetrics :: "string \<Rightarrow> 'm"
  errorCount :: "string \<Rightarrow> nat"
  history :: "trade_entry list"

record ('g, 'm) arithmetic =
  realize :: "'m \<Rightarrow> tick \<Rightarrow> OrderIntent \<Rightarrow> real"
  account :: "trade_entry \<Rightarrow> 'm \<Rightarrow> 'm"
  aggregate :: "trade_entry \<Rightarrow> 'g \<Rightarrow> 'g"

text \<open>Modelled from the spec: \<^verbatim>\<open>recordTrade\<close> performs "update position/entry price for the
  owning StrategyInstance, compute realized P&L if the action closes or reduces a position,
  update both GlobalMetrics and the specific StrategyMetrics, append the TradeRecord". The
  trade record has the fields the specification lists.\<close>

definition recordTrade ::
  "('g, 'm) arithmetic \<Rightarrow> StrategyInstance \<Rightarrow> tick \<Rightarrow> OrderIntent \<Rightarrow> ('g, 'm) store \<Rightarrow> ('g, 'm) store" where
  "recordTrade arith s t intent st =
     (let owner = strategyMetrics st (strategyId s);
          trade = \<lparr>entry_instrument = tick_instrument t, entry_strategy = strategyId s,
                   entry_action = intent_action intent, entry_price = tick_price t,
                   entry_quantity = intent_quantity intent, entry_time = tick_time t,
                   realizedPnL = realize arith owner t intent\<rparr>
      in st\<lparr>globalMetrics := aggregate arith trade (globalMetrics st),
             strategyMetrics := (strategyMetrics st)(strategyId s := account arith trade owner),
             history := history st @ [trade]\<rparr>)"

definition count_error :: "string \<Rightarrow> nat \<Rightarrow> ('g, 'm) store \<Rightarrow> ('g, 'm) store" where
  "count_error sid k st = st\<lparr>errorCount := (errorCount st)(sid := errorCount st sid + k)\<rparr>"

text \<open>Modelled from the spec: result collection. An order intent is "consumed immediately
  by result collection to produce a TradeRecord or discarded if None"; a worker that throws
  "is caught, logged as a per-strategy error count", "converted to a no-op result plus a
  logged counter increment".\<close>

definition collect ::
  "('g, 'm) arithmetic \<Rightarrow> tick \<Rightarrow> ('g, 'm) store \<Rightarrow> StrategyInstance \<Rightarrow> ('g, 'm) store" where
  "collect arith t st s =
     (case evaluate s t of
        Raised \<Rightarrow> count_error (strategyId s) 1 st
      | Returned None \<Rightarrow> st
      | Returned (Some intent) \<Rightarrow> recordTrade arith s t intent st)"

text \<open>Modelled from the spec: for each tick the dispatcher "looks up the subset of
  registered StrategyInstances whose instrumentId matches and whose status is Active, and
  submits one evaluation task per match to the Worker Pool"; ticks are taken "in the order
  enqueued".\<close>

definition interested :: "tick \<Rightarrow> StrategyInstance \<Rightarrow> bool" where
  "interested t s \<longleftrightarrow> instrumentId s = tick_instrument t \<and> lifecycle s = Active"

definition dispatch :: "StrategyInstance list \<Rightarrow> tick \<Rightarrow> StrategyInstance list" where
  "dispatch registry t = filter (interested t) registry"

definition process_tick ::
  "('g, 'm) arithmetic \<Rightarrow> StrategyInstance list \<Rightarrow> ('g, 'm) store \<Rightarrow> tick \<Rightarrow> ('g, 'm) store" where
  "process_tick arith registry st t = foldl (collect arith t) st (dispatch registry t)"

definition process_batch ::
  "('g, 'm) arithmetic \<Rightarrow> StrategyInstance list \<Rightarrow> tick list \<Rightarrow> ('g, 'm) store \<Rightarrow> ('g, 'm) store" where
  "process_batch arith registry ticks st = foldl (process_tick arith registry) st ticks"

text \<open>Two stores agree off \<open>sid\<close> when every other strategy has the same account and the
  same error count in both.\<close>

definition agree_off :: "string \<Rightarrow> ('g, 'm) store \<Rightarrow> ('g, 'm) store \<Rightarrow> bool" where
  "agree_off sid a b \<longleftrightarrow>
     (\<forall>other. other \<noteq> sid \<longrightarrow>
        strategyMetrics a other = strategyMetrics b other \<and> errorCount a other = errorCount b other)"

text \<open>For examples: metrics that count trades, a strategy that buys one unit on every
  tick and one that throws on every tick, both on BTC, and an empty store.\<close>

definition counting :: "(nat, nat) arithmetic" where
  "counting = \<lparr>realize = (\<lambda>owner t intent. 0), account = (\<lambda>trade n. n + 1),
     aggregate = (\<lambda>trade n. n + 1)\<rparr>"

definition buyer :: StrategyInstance where
  "buyer = \<lparr>strategyId = ''BTC_SMA'', instrumentId = ''BTC'', lifecycle = Active,
     evaluate = (\<lambda>t. Returned (Some \<lparr>intent_action = Buy, intent_quantity = 1\<rparr>))\<rparr>"

definition thrower :: StrategyInstance where
  "thrower = \<lparr>strategyId = ''BTC_Momentum'', instrumentId = ''BTC'', lifecycle = Active,
     evaluate = (\<lambda>t. Raised)\<rparr>"

definition empty_store :: "(nat, nat) store" where
  "empty_store = \<lparr>globalMetrics = 0, strategyMetrics = (\<lambda>sid. 0), errorCount = (\<lambda>sid. 0),
     history = []\<rparr>"

section \<open>Concurrent submission to the shared state store\<close>

text \<open>
  Modelled from the spec: the shared state store and its lock belong to the engine, whose
  code is not among the sources. The specification says that \<^verbatim>\<open>recordTrade\<close> "acquires
  exclusive access, performs: ... update both GlobalMetrics and the specific
  StrategyMetrics, append the TradeRecord, then releases exclusive access", and that
  \<^verbatim>\<open>readSnapshot\<close> "takes the same exclusive access for the minimal time needed to copy";
  the backend notes among the sources show the update the lock protects,
  \<^verbatim>\<open>with engine.lock: metrics['total_trades'] += 1\<close>.

  The model is an interleaving of small steps. Every worker has a list of trades to
  submit and submits them one after the other; a submission is five steps: acquire the
  lock (enabled only while the lock is free), load the trade count, store the count plus
  one, append the record, release. The increment is a load and a store, as \<^verbatim>\<open>+=\<close> is, and
  between the store and the append the store holds a half-written trade. A reader
  acquires the lock, copies count and records, and releases. A step that is not enabled
  has no next state (\<open>None\<close>); a schedule is a list of events run from left to right.
\<close>

datatype phase = Waiting | Holding | Loaded nat | Counted | Appended

datatype holder = Free | Writer nat | Reader

record worker =
  todo :: "trade_entry list"
  phase :: phase

record system =
  lock :: holder
  trade_count :: nat
  records :: "trade_entry list"
  workers :: "worker list"
  snapshots :: "(nat \<times> trade_entry list) list"

definition start_system :: "trade_entry list list \<Rightarrow> system" where
  "start_system work =
     \<lparr>lock = Free, trade_count = 0, records = [],
      workers = map (\<lambda>ts. \<lparr>todo = ts, phase = Waiting\<rparr>) work, snapshots = []\<rparr>"

definition set_phase :: "nat \<Rightarrow> phase \<Rightarrow> system \<Rightarrow> system" where
  "set_phase w p st = st\<lparr>workers := (workers st)[w := (workers st ! w)\<lparr>phase := p\<rparr>]\<rparr>"

datatype event =
    Acquire nat | Load nat | Count nat | Append nat | Release nat
  | ReaderAcquire | ReaderCopy | ReaderRelease

text \<open>Modelled from the spec: the steps of one \<^verbatim>\<open>recordTrade\<close> by worker \<open>w\<close>, which
  "acquires exclusive access, performs: ... update both GlobalMetrics and the specific
  StrategyMetrics, append the TradeRecord, then releases exclusive access".\<close>

definition writer_step :: "nat \<Rightarrow> event \<Rightarrow> system \<Rightarrow> system option" where
  "writer_step w e st =
     (let me = workers st ! w in
      case e of
        Acquire _ \<Rightarrow>
          if lock st = Free \<and> phase me = Waiting \<and> todo me \<noteq> []
          then Some (set_phase w Holding (st\<lparr>lock := Writer w\<rparr>)) else None
      | Load _ \<Rightarrow>
          if phase me = Holding then Some (set_phase w (Loaded (trade_count st)) st) else None
      | Count _ \<Rightarrow>
          (case phase me of
             Loaded c \<Rightarrow> Some (set_phase w Counted (st\<lparr>trade_count := c + 1\<rparr>))
           | _ \<Rightarrow> None)
      | Append _ \<Rightarrow>
          (case todo me of
             t # rest \<Rightarrow>
               if phase me = Counted
               then Some (set_phase w Appended (st\<lparr>records := records st @ [t]\<rparr>)) else None
           | [] \<Rightarrow> None)
      | Release _ \<Rightarrow>
          if phase me = Appended
          then Some (st\<lparr>lock := Free,
                        workers := (workers st)[w := \<lparr>todo = tl (todo me), phase = Waiting\<rparr>]\<rparr>)
          else None
      | _ \<Rightarrow> None)"

text \<open>Modelled from the spec: a step of the system is a step of one worker, or of the
  reader: \<^verbatim>\<open>readSnapshot\<close> "takes the same exclusive access for the minimal time needed
  to copy (not to compute)".\<close>

definition system_step :: "event \<Rightarrow> system \<Rightarrow> system option" where
  "system_step e st =
     (case e of
        ReaderAcquire \<Rightarrow> if lock st = Free then Some (st\<lparr>lock := Reader\<rparr>) else None
      | ReaderCopy \<Rightarrow>
          if lock st = Reader
          then Some (st\<lparr>snapshots := snapshots st @ [(trade_count st, records st)]\<rparr>) else None
      | ReaderRelease \<Rightarrow> if lock st = Reader then Some (st\<lparr>lock := Free\<rparr>) else None
      | Acquire w \<Rightarrow> if w < length (workers st) then writer_step w e st else None
      | Load w \<Rightarrow> if w < length (workers st) then writer_step w e st else None
      | Count w \<Rightarrow> if w < length (workers st) then writer_step w e st else None
      | Append w \<Rightarrow> if w < length (workers st) then writer_step w e st else None
      | Release w \<Rightarrow> if w < length (workers st) then writer_step w e st else None)"

fun run_system :: "event list \<Rightarrow> system \<Rightarrow> system option" where
  "run_system [] st = Some st"
| "run_system (e # es) st =
     (case system_step e st of
        None \<Rightarrow> None
      | Some st' \<Rightarrow> run_system es st')"

text \<open>The submissions still to be made, and the invariant of the lock: with the lock free
  or with a reader, nobody is inside a submission and count and records are in step; with a
  writer, only that worker is inside, and count and records are where its phase says.\<close>

definition remaining :: "system \<Rightarrow> nat" where
  "remaining st = sum_list (map (\<lambda>w. length (todo w)) (workers st))"

definition others_wait :: "nat \<Rightarrow> system \<Rightarrow> bool" where
  "others_wait w st \<longleftrightarrow>
     list_all (\<lambda>v. v = w \<or> phase (workers st ! v) = Waiting) [0..<length (workers st)]"

definition snapshots_whole :: "system \<Rightarrow> bool" where
  "snapshots_whole st \<longleftrightarrow> list_all (\<lambda>(c, rs). c = length rs) (snapshots st)"

definition lock_invariant :: "nat \<Rightarrow> system \<Rightarrow> bool" where
  "lock_invariant T st \<longleftrightarrow>
     snapshots_whole st \<and>
     (case lock st of
        Writer w \<Rightarrow>
          w < length (workers st) \<and> todo (workers st ! w) \<noteq> [] \<and> others_wait w st \<and>
          (case phase (workers st ! w) of
             Waiting \<Rightarrow> False
           | Holding \<Rightarrow>
               trade_count st = length (records st) \<and> trade_count st + remaining st = T
           | Loaded c \<Rightarrow>
               c = trade_count st \<and> trade_count st = length (records st)
               \<and> trade_count st + remaining st = T
           | Counted \<Rightarrow>
               trade_count st = length (records st) + 1 \<and> trade_count st + remaining st = T + 1
           | Appended \<Rightarrow>
               trade_count st = length (records st) \<and> trade_count st + remaining st = T + 1)
      | _ \<Rightarrow>
          others_wait (length (workers st)) st
          \<and> trade_count st = length (records st) \<and> trade_count st + remaining st = T)"

text \<open>The trades that are in the store or still to be submitted, each counted once: the
  records and the lists of the workers, less the trade a worker has appended but not yet
  taken off its list.\<close>

definition submitted :: "system \<Rightarrow> trade_entry multiset" where
  "submitted st =
     mset (records st) + mset (concat (map todo (workers st)))
       - (case lock st of
            Writer w \<Rightarrow>
              if phase (workers st ! w) = Appended then mset (take 1 (todo (workers st ! w)))
              else {#}
          | _ \<Rightarrow> {#})"

text \<open>The steps the workers still have to make: five for every trade left, less the
  steps the worker in the middle of a submission has made, and one for a reader to hand
  back the lock.\<close>

definition steps_left :: "system \<Rightarrow> nat" where
  "steps_left st =
     (case lock st of
        Free \<Rightarrow> 5 * remaining st
      | Reader \<Rightarrow> 5 * remaining st + 1
      | Writer w \<Rightarrow>
          5 * remaining st -
            (case phase (workers st ! w) of
               Waiting \<Rightarrow> 0 | Holding \<Rightarrow> 1 | Loaded c \<Rightarrow> 2 | Counted \<Rightarrow> 3 | Appended \<Rightarrow> 4))"

text \<open>Two workers with one trade each, for examples.\<close>

definition trade_a :: trade_entry where
  "trade_a = \<lparr>entry_instrument = ''BTC'', entry_strategy = ''BTC_SMA'', entry_action = Buy,
     entry_price = 45000, entry_quantity = 1, entry_time = 0, realizedPnL = 0\<rparr>"

definition trade_b :: trade_entry where
  "trade_b = \<lparr>entry_instrument = ''BTC'', entry_strategy = ''BTC_Momentum'', entry_action = Sell,
     entry_price = 45000, entry_quantity = 1, entry_time = 0, realizedPnL = 0\<rparr>"

definition two_workers :: "event list" where
  "two_workers =
     [Acquire 1, Load 1, Count 1, Append 1, Release 1, ReaderAcquire, ReaderCopy,
      ReaderRelease, Acquire 0, Load 0, Count 0, Append 0, Release 0]"

section \<open>Position keeping and the metrics of the store\<close>

text \<open>
  Modelled from the spec: the arithmetic of the shared state store, which belongs to the
  engine, whose code is not among the sources. The specification gives a strategy instance
  its "live position size" and "average entry price", and the global and the per-strategy
  metrics their aggregates: "total trade count, win/loss counts, gross profit, gross loss,
  net P&L" (the drawdown accumulator and the exposure are left out; nothing here reads
  them). A position is signed: positive when long, negative when short. Amounts are exact.
\<close>

record metrics =
  total_trades :: nat
  winning_trades :: nat
  losing_trades :: nat
  grossProfit :: real
  grossLoss :: real
  netPnL :: real

record account =
  position :: real
  entryPrice :: real
  own :: metrics

definition no_trades :: metrics where
  "no_trades = \<lparr>total_trades = 0, winning_trades = 0, losing_trades = 0, grossProfit = 0,
     grossLoss = 0, netPnL = 0\<rparr>"

definition fresh_store :: "(metrics, account) store" where
  "fresh_store =
     \<lparr>globalMetrics = no_trades,
      strategyMetrics = (\<lambda>sid. \<lparr>position = 0, entryPrice = 0, own = no_trades\<rparr>),
      errorCount = (\<lambda>sid. 0), history = []\<rparr>"

text \<open>Modelled from the spec: the update of the aggregates by one trade, under the
  invariant "netPnL == grossProfit - grossLoss at all times; totalTrades == winningTrades +
  losingTrades at all times; both invariants must hold immediately after every mutation".
  A positive realized P&L adds to the gross profit, a negative one adds its amount to the
  gross loss, and the net is their difference after the update; every trade is counted, as
  winning or as losing. The specification does not say on which side a trade with P&L
  exactly zero is counted: \<open>zero_wins\<close> decides.\<close>

definition book :: "bool \<Rightarrow> real \<Rightarrow> metrics \<Rightarrow> metrics" where
  "book zero_wins x m =
     (let profit = grossProfit m + (if 0 < x then x else 0);
          loss = grossLoss m + (if x < 0 then - x else 0);
          won = (0 < x \<or> (x = 0 \<and> zero_wins))
      in \<lparr>total_trades = total_trades m + 1,
          winning_trades = winning_trades m + (if won then 1 else 0),
          losing_trades = losing_trades m + (if won then 0 else 1),
          grossProfit = profit, grossLoss = loss, netPnL = profit - loss\<rparr>)"

text \<open>Modelled from the spec: \<^verbatim>\<open>recordTrade\<close> is to "compute realized P&L if the action
  closes or reduces a position". A sell closes a long position and a buy a short one, on
  the quantity of the order as far as the position goes. The scenario of the specification
  gives the amount, \<^verbatim>\<open>realizedPnL = (45500-45000)*1.0 = 500\<close>, and the repository's notes on
  the trade list show the same pair: a BUY of 1.0 at 45000.0 with \<^verbatim>\<open>profit_loss\<close> 0.0, then
  a SELL of 1.0 at 45500.0 with \<^verbatim>\<open>profit_loss\<close> 500.0.\<close>

definition closes :: "account \<Rightarrow> action \<Rightarrow> bool" where
  "closes a act \<longleftrightarrow> (act = Sell \<and> 0 < position a) \<or> (act = Buy \<and> position a < 0)"

definition realized :: "account \<Rightarrow> tick \<Rightarrow> OrderIntent \<Rightarrow> real" where
  "realized a t intent =
     (if closes a (intent_action intent)
      then (tick_price t - entryPrice a) * min (intent_quantity intent) \<bar>position a\<bar>
             * sgn (position a)
      else 0)"

text \<open>Modelled from the spec: \<^verbatim>\<open>recordTrade\<close> is to "update position/entry price for the
  owning StrategyInstance" and its metrics. A buy raises the position by its quantity and
  a sell lowers it. The entry price is the price of the trade that opens a position (from
  flat, or by going through flat), the average over the quantities when a trade adds to
  the position, and stays when a trade reduces it.\<close>

definition signed_quantity :: "action \<Rightarrow> real \<Rightarrow> real" where
  "signed_quantity act q = (case act of Buy \<Rightarrow> q | Sell \<Rightarrow> - q)"

definition keep :: "bool \<Rightarrow> trade_entry \<Rightarrow> account \<Rightarrow> account" where
  "keep zero_wins trade a =
     (let q = entry_quantity trade;
          p = entry_price trade;
          after = position a + signed_quantity (entry_action trade) q;
          entry =
            (if closes a (entry_action trade)
             then (if after * position a < 0 then p else entryPrice a)
             else if position a = 0 then p
             else (entryPrice a * \<bar>position a\<bar> + p * q) / (\<bar>position a\<bar> + q))
      in \<lparr>position = after, entryPrice = entry,
          own = book zero_wins (realizedPnL trade) (own a)\<rparr>)"

definition position_keeping :: "bool \<Rightarrow> (metrics, account) arithmetic" where
  "position_keeping zero_wins =
     \<lparr>realize = realized, account = keep zero_wins,
      aggregate = (\<lambda>trade. book zero_wins (realizedPnL trade))\<rparr>"

text \<open>The invariant of the specification, for one set of aggregates and for the store:
  the global metrics and the metrics of every strategy.\<close>

definition metrics_ok :: "metrics \<Rightarrow> bool" where
  "metrics_ok m \<longleftrightarrow>
     netPnL m = grossProfit m - grossLoss m
     \<and> total_trades m = winning_trades m + losing_trades m"

definition store_ok :: "(metrics, account) store \<Rightarrow> bool" where
  "store_ok st \<longleftrightarrow>
     metrics_ok (globalMetrics st) \<and> (\<forall>sid. metrics_ok (own (strategyMetrics st sid)))"

text \<open>The scenario of the specification: the strategies \<^verbatim>\<open>BTC/SMA\<close> and \<^verbatim>\<open>BTC/Momentum\<close> are
  registered; the ticks are (BTC, 45000, t = 0) and (BTC, 45500, t = 60); SMA emits
  (Buy, 1.0) on the first and (Sell, 1.0) on the second, Momentum emits nothing.\<close>

definition two_ticks :: "tick list" where
  "two_ticks =
     [\<lparr>tick_instrument = ''BTC'', tick_price = 45000, tick_volume = 1, tick_time = 0\<rparr>,
      \<lparr>tick_instrument = ''BTC'', tick_price = 45500, tick_volume = 1, tick_time = 60\<rparr>]"

definition sma :: StrategyInstance where
  "sma = \<lparr>strategyId = ''BTC_SMA'', instrumentId = ''BTC'', lifecycle = Active,
     evaluate = (\<lambda>t.
       if tick_time t = 0 then Returned (Some \<lparr>intent_action = Buy, intent_quantity = 1\<rparr>)
       else if tick_time t = 60 then Returned (Some \<lparr>intent_action = Sell, intent_quantity = 1\<rparr>)
       else Returned None)\<rparr>"

definition momentum :: StrategyInstance where
  "momentum = \<lparr>strategyId = ''BTC_Momentum'', instrumentId = ''BTC'', lifecycle = Active,
     evaluate = (\<lambda>t. Returned None)\<rparr>"

definition scenario_store :: "bool \<Rightarrow> (metrics, account) store" where
  "scenario_store zero_wins =
     process_batch (position_keeping zero_wins) [sma, momentum] two_ticks fresh_store"

text \<open>The store of the scenario after the first tick, with one unit bought at 45000, and
  the order that closes the position.\<close>

definition long_one :: "(metrics, account) store" where
  "long_one = process_tick (position_keeping True) [sma, momentum] fresh_store (two_ticks ! 0)"

definition sell_one :: OrderIntent where
  "sell_one = \<lparr>intent_action = Sell, intent_quantity = 1\<rparr>"

section \<open>Properties of the trade-history dashboard\<close>

text \<open>
  C10: a trade is in \<open>filteredTrades\<close> exactly when it is in \<open>trades\<close> and each of the
  three filters is \<open>''All''\<close> or equals the trade's field; the list is the sublist of
  \<open>trades\<close> selected by that conjunction, in the order of \<open>trades\<close>; and when the three
  filters are \<open>''All''\<close> it is \<open>trades\<close> itself.
\<close>

theorem filteredTrades_conjunction:
  "(trade \<in> set (filteredTrades filters trades) \<longleftrightarrow>
      trade \<in> set trades
      \<and> (filter_coin filters = ''All'' \<or> coin trade = filter_coin filters)
      \<and> (filter_strategy filters = ''All'' \<or> strategy trade = filter_strategy filters)
      \<and> (filter_status filters = ''All'' \<or> status trade = filter_status filters))
   \<and> filteredTrades filters trades =
      filter (\<lambda>t. (filter_coin filters = ''All'' \<or> coin t = filter_coin filters)
                 \<and> (filter_strategy filters = ''All'' \<or> strategy t = filter_strategy filters)
                 \<and> (filter_status filters = ''All'' \<or> status t = filter_status filters)) trades
   \<and> filteredTrades initial_filters trades = trades"
proof -
  have eq: "trade_passes filters t \<longleftrightarrow>
      (filter_coin filters = ''All'' \<or> coin t = filter_coin filters)
      \<and> (filter_strategy filters = ''All'' \<or> strategy t = filter_strategy filters)
      \<and> (filter_status filters = ''All'' \<or> status t = filter_status filters)" for t
    by (simp add: trade_passes_def)
  have all: "trade_passes initial_filters t" for t
    by (simp add: trade_passes_def initial_filters_def)
  have "filter (trade_passes filters) trades =
      filter (\<lambda>t. (filter_coin filters = ''All'' \<or> coin t = filter_coin filters)
                 \<and> (filter_strategy filters = ''All'' \<or> strategy t = filter_strategy filters)
                 \<and> (filter_status filters = ''All'' \<or> status t = filter_status filters)) trades"
    by (rule filter_cong) (simp_all add: eq)
  moreover have "filter (trade_passes initial_filters) trades = trades"
    by (simp add: all)
  moreover have "trade \<in> set (filter (trade_passes filters) trades) \<longleftrightarrow>
      trade \<in> set trades
      \<and> (filter_coin filters = ''All'' \<or> coin trade = filter_coin filters)
      \<and> (filter_strategy filters = ''All'' \<or> strategy trade = filter_strategy filters)
      \<and> (filter_status filters = ''All'' \<or> status trade = filter_status filters)"
    by (simp add: eq)
  ultimately show ?thesis
    unfolding filteredTrades_def by blast
qed

section \<open>Properties of the optimization dashboard\<close>

lemma foldl_better_last_max:
  "\<exists>i < length (x # rest). (x # rest) ! i = foldl better x rest
     \<and> (\<forall>j < length (x # rest). sharpe ((x # rest) ! j) \<le> sharpe (foldl better x rest))
     \<and> (\<forall>j < length (x # rest). i < j \<longrightarrow> sharpe ((x # rest) ! j) < sharpe (foldl better x rest))"
proof (induction rest rule: rev_induct)
  case Nil
  show ?case by simp
next
  case (snoc y rest)
  let ?b = "foldl better x rest"
  from snoc obtain i where i: "i < length (x # rest)" "(x # rest) ! i = ?b"
    and le: "\<forall>j < length (x # rest). sharpe ((x # rest) ! j) \<le> sharpe ?b"
    and lt: "\<forall>j < length (x # rest). i < j \<longrightarrow> sharpe ((x # rest) ! j) < sharpe ?b"
    by blast
  have nth_old: "(x # rest @ [y]) ! j = (x # rest) ! j" if "j < length (x # rest)" for j
    using that by (metis append_Cons nth_append)
  have nth_new: "(x # rest @ [y]) ! length (x # rest) = y"
    by (metis append_Cons nth_append_length)
  have cases_j: "j < length (x # rest) \<or> j = length (x # rest)" if "j < length (x # rest @ [y])" for j
    using that by auto
  show ?case
  proof (cases "sharpe ?b > sharpe y")
    case True
    then have res: "foldl better x (rest @ [y]) = ?b" by (simp add: better_def)
    show ?thesis
    proof (intro exI[of _ i] conjI allI impI)
      show "i < length (x # rest @ [y])" using i(1) by simp
      show "(x # rest @ [y]) ! i = foldl better x (rest @ [y])"
        using i nth_old res by simp
      show "sharpe ((x # rest @ [y]) ! j) \<le> sharpe (foldl better x (rest @ [y]))"
        if "j < length (x # rest @ [y])" for j
        using cases_j[OF that] le nth_old nth_new True res by (metis less_eq_real_def)
      show "sharpe ((x # rest @ [y]) ! j) < sharpe (foldl better x (rest @ [y]))"
        if "j < length (x # rest @ [y])" "i < j" for j
        using cases_j[OF that(1)] lt nth_old nth_new True res that(2) by metis
    qed
  next
    case False
    then have res: "foldl better x (rest @ [y]) = y" by (simp add: better_def)
    show ?thesis
    proof (intro exI[of _ "length (x # rest)"] conjI allI impI)
      show "length (x # rest) < length (x # rest @ [y])" by simp
      show "(x # rest @ [y]) ! length (x # rest) = foldl better x (rest @ [y])"
        using nth_new res by simp
      show "sharpe ((x # rest @ [y]) ! j) \<le> sharpe (foldl better x (rest @ [y]))"
        if "j < length (x # rest @ [y])" for j
      proof -
        from cases_j[OF that] show ?thesis
        proof
          assume j: "j < length (x # rest)"
          then have "sharpe ((x # rest) ! j) \<le> sharpe ?b" using le by blast
          with False j show ?thesis using nth_old[OF j] res by simp
        next
          assume "j = length (x # rest)"
          then show ?thesis using nth_new res by simp
        qed
      qed
      show "sharpe ((x # rest @ [y]) ! j) < sharpe (foldl better x (rest @ [y]))"
        if "j < length (x # rest @ [y])" "length (x # rest) < j" for j
        using that by simp
    qed
  qed
qed

text \<open>
  C9: for every non-empty list of results, \<open>bestStrategy\<close> is an element of the list, no
  element has a greater \<open>sharpe\<close>, and it stands at the last position that holds the
  greatest \<open>sharpe\<close>: every later element has a strictly smaller one. The unguarded
  \<^verbatim>\<open>reduce\<close> of the first version returns the same element.
\<close>

theorem bestStrategy_maximal:
  assumes "rs \<noteq> []"
  shows "bestStrategy rs \<in> set rs
    \<and> (\<forall>r \<in> set rs. sharpe r \<le> sharpe (bestStrategy rs))
    \<and> (\<exists>i < length rs. rs ! i = bestStrategy rs
          \<and> (\<forall>j < length rs. i < j \<longrightarrow> sharpe (rs ! j) < sharpe (bestStrategy rs)))
    \<and> bestStrategy_unguarded rs = Inr (bestStrategy rs)"
proof -
  from assms obtain x rest where xs: "rs = x # rest" by (cases rs) auto
  have best: "bestStrategy rs = foldl better x rest"
    by (simp add: bestStrategy_def reduce_def xs)
  have ung: "bestStrategy_unguarded rs = Inr (bestStrategy rs)"
    by (simp add: bestStrategy_unguarded_def bestStrategy_def reduce_def xs)
  from foldl_better_last_max[of x rest] obtain i where i: "i < length rs"
    "rs ! i = bestStrategy rs"
    and le: "\<forall>j < length rs. sharpe (rs ! j) \<le> sharpe (bestStrategy rs)"
    and lt: "\<forall>j < length rs. i < j \<longrightarrow> sharpe (rs ! j) < sharpe (bestStrategy rs)"
    unfolding xs[symmetric] best[symmetric] by blast
  have mem: "bestStrategy rs \<in> set rs"
    using i by (metis nth_mem)
  have all: "\<forall>r \<in> set rs. sharpe r \<le> sharpe (bestStrategy rs)"
    using le by (metis in_set_conv_nth)
  from mem all i lt ung show ?thesis by blast
qed

theorem bestStrategy_maximal_witness:
  "generateBacktestResults \<noteq> []
   \<and> bestStrategy generateBacktestResults = generateBacktestResults ! 1
   \<and> bt_strategy (bestStrategy generateBacktestResults) = ''Momentum''
   \<and> bestStrategy generateBacktestResults \<in> set generateBacktestResults"
proof -
  have ne: "generateBacktestResults \<noteq> []" by (simp add: generateBacktestResults_def)
  have v: "bestStrategy generateBacktestResults = generateBacktestResults ! 1"
    by (simp add: bestStrategy_def reduce_def better_def generateBacktestResults_def)
  have s: "bt_strategy (generateBacktestResults ! 1) = ''Momentum''"
    by (simp add: generateBacktestResults_def)
  from bestStrategy_maximal[OF ne] v s ne show ?thesis by simp
qed

lemma can_run_iff:
  "can_run parseDate st \<longleftrightarrow>
     \<not> (\<not> isFileUploaded st \<or> fromDate st = [] \<or> toDate st = []
        \<or> parseDate (fromDate st) = None \<or> parseDate (toDate st) = None
        \<or> (\<exists>a b. parseDate (fromDate st) = Some a \<and> parseDate (toDate st) = Some b \<and> a > b))"
  by (auto simp: can_run_def split: option.splits)

lemma handle_outcome_frame:
  "requests (handle_outcome outcome st) = requests st"
  by (simp add: handle_outcome_def show_alert_def Let_def
      split: fetch_outcome.splits response_body.splits option.splits)

lemma handleRunBacktest_blocked:
  assumes "\<not> can_run parseDate st"
  shows "\<exists>a. handleRunBacktest parseDate server st = show_alert a st"
  using assms
  by (auto simp: can_run_def handleRunBacktest_def split: option.splits)

lemma handleRunBacktest_sent:
  assumes "can_run parseDate st"
  shows "requests (handleRunBacktest parseDate server st) = requests st @
     [\<lparr>req_strategy = selectedStrategy st, from_date = fromDate st,
       to_date = toDate st, req_capital = capital st\<rparr>]"
  using assms
  by (auto simp: can_run_def handleRunBacktest_def handle_outcome_frame Let_def split: option.splits)

text \<open>
  C8: when no file is uploaded, or a date is empty or does not parse, or the start is after
  the end, \<open>handleRunBacktest\<close> sends no request and leaves \<open>results\<close>, \<open>hasResults\<close> and
  \<open>isRunning\<close> as they were; a request is sent only when all the preconditions hold, and
  then exactly one is sent, built from the form.
\<close>

theorem handleRunBacktest_guarded:
  "(\<not> isFileUploaded st \<or> fromDate st = [] \<or> toDate st = []
      \<or> parseDate (fromDate st) = None \<or> parseDate (toDate st) = None
      \<or> (\<exists>a b. parseDate (fromDate st) = Some a \<and> parseDate (toDate st) = Some b \<and> a > b)
    \<longrightarrow> requests (handleRunBacktest parseDate server st) = requests st
        \<and> results (handleRunBacktest parseDate server st) = results st
        \<and> hasResults (handleRunBacktest parseDate server st) = hasResults st
        \<and> isRunning (handleRunBacktest parseDate server st) = isRunning st)
   \<and> (requests (handleRunBacktest parseDate server st) \<noteq> requests st \<longrightarrow>
        isFileUploaded st \<and> fromDate st \<noteq> [] \<and> toDate st \<noteq> []
        \<and> (\<exists>a b. parseDate (fromDate st) = Some a \<and> parseDate (toDate st) = Some b \<and> a \<le> b))
   \<and> (can_run parseDate st \<longrightarrow>
        requests (handleRunBacktest parseDate server st) = requests st @
          [\<lparr>req_strategy = selectedStrategy st, from_date = fromDate st,
            to_date = toDate st, req_capital = capital st\<rparr>])"
proof (intro conjI impI)
  assume blocked: "\<not> isFileUploaded st \<or> fromDate st = [] \<or> toDate st = []
      \<or> parseDate (fromDate st) = None \<or> parseDate (toDate st) = None
      \<or> (\<exists>a b. parseDate (fromDate st) = Some a \<and> parseDate (toDate st) = Some b \<and> a > b)"
  then have "\<not> can_run parseDate st" by (simp only: can_run_iff not_not)
  then obtain a where a: "handleRunBacktest parseDate server st = show_alert a st"
    using handleRunBacktest_blocked by blast
  show "requests (handleRunBacktest parseDate server st) = requests st"
    by (simp add: a show_alert_def)
  show "results (handleRunBacktest parseDate server st) = results st"
    by (simp add: a show_alert_def)
  show "hasResults (handleRunBacktest parseDate server st) = hasResults st"
    by (simp add: a show_alert_def)
  show "isRunning (handleRunBacktest parseDate server st) = isRunning st"
    by (simp add: a show_alert_def)
next
  assume sent: "requests (handleRunBacktest parseDate server st) \<noteq> requests st"
  have run: "can_run parseDate st"
  proof (rule ccontr)
    assume "\<not> can_run parseDate st"
    then obtain a where "handleRunBacktest parseDate server st = show_alert a st"
      using handleRunBacktest_blocked by blast
    with sent show False by (simp add: show_alert_def)
  qed
  then show "isFileUploaded st" and "fromDate st \<noteq> []" and "toDate st \<noteq> []"
    by (simp_all add: can_run_def)
  from run show "\<exists>a b. parseDate (fromDate st) = Some a \<and> parseDate (toDate st) = Some b \<and> a \<le> b"
    by (auto simp: can_run_def split: option.splits)
next
  assume "can_run parseDate st"
  then show "requests (handleRunBacktest parseDate server st) = requests st @
          [\<lparr>req_strategy = selectedStrategy st, from_date = fromDate st,
            to_date = toDate st, req_capital = capital st\<rparr>]"
    by (rule handleRunBacktest_sent)
qed

theorem handleRunBacktest_guarded_witness:
  "example_parse (fromDate reversed_dates) = Some 20071
   \<and> example_parse (toDate reversed_dates) = Some 19723
   \<and> requests (handleRunBacktest example_parse no_server reversed_dates) = []
   \<and> results (handleRunBacktest example_parse no_server reversed_dates) = generateBacktestResults
   \<and> hasResults (handleRunBacktest example_parse no_server reversed_dates)
   \<and> can_run example_parse ready_dashboard
   \<and> length (requests (handleRunBacktest example_parse no_server ready_dashboard)) = 1"
proof -
  have f: "example_parse (fromDate reversed_dates) = Some 20071"
    and t: "example_parse (toDate reversed_dates) = Some 19723"
    by (simp_all add: reversed_dates_def initial_dashboard_def example_parse_def)
  have run: "can_run example_parse ready_dashboard"
    by (simp add: can_run_def ready_dashboard_def initial_dashboard_def example_parse_def)
  have init: "requests reversed_dates = []" "results reversed_dates = generateBacktestResults"
    "hasResults reversed_dates" "requests ready_dashboard = []"
    by (simp_all add: reversed_dates_def ready_dashboard_def initial_dashboard_def)
  from f t have blocked: "\<exists>a b. example_parse (fromDate reversed_dates) = Some a
      \<and> example_parse (toDate reversed_dates) = Some b \<and> a > b"
    by simp
  from handleRunBacktest_guarded[of reversed_dates example_parse no_server] blocked init
  have "requests (handleRunBacktest example_parse no_server reversed_dates) = []
     \<and> results (handleRunBacktest example_parse no_server reversed_dates) = generateBacktestResults
     \<and> hasResults (handleRunBacktest example_parse no_server reversed_dates)"
    by simp
  moreover from handleRunBacktest_guarded[of ready_dashboard example_parse no_server] run init
  have "length (requests (handleRunBacktest example_parse no_server ready_dashboard)) = 1"
    by simp
  ultimately show ?thesis using f t run by simp
qed

section \<open>Properties of the socket provider\<close>

lemma backoff_step:
  assumes "r = (if n = 0 then 0 else min 30000 (1000 * 2 ^ n))"
  shows "min 30000 (js_or (js_or r 1000 * 2) 1000) = min 30000 (1000 * 2 ^ Suc n)"
proof (cases "n = 0")
  case True
  with assms show ?thesis by (simp add: js_or_def)
next
  case False
  with assms have "r = min 30000 (1000 * 2 ^ n)" by simp
  then show ?thesis by (simp add: js_or_def min_def)
qed

lemma backoff_positive: "0 < x \<Longrightarrow> js_or (min 30000 x) 1000 = min 30000 x"
  by (simp add: js_or_def min_def)

lemma failures_state:
  "mounted (failures n (connect initial_provider))
   \<and> timers (failures n (connect initial_provider)) = []
   \<and> sockets (failures n (connect initial_provider)) = n + 1
   \<and> reconnect (failures n (connect initial_provider)) = (if n = 0 then 0 else min 30000 (1000 * 2 ^ n))"
proof (induction n)
  case 0
  show ?case by (simp add: connect_def initial_provider_def)
next
  case (Suc n)
  let ?st = "failures n (connect initial_provider)"
  from Suc have m: "mounted ?st" and t: "timers ?st = []" and s: "sockets ?st = n + 1"
    and r: "reconnect ?st = (if n = 0 then 0 else min 30000 (1000 * 2 ^ n))" by simp_all
  have closed: "on_close ?st = ?st\<lparr>connected := False, reconnect := min 30000 (1000 * 2 ^ Suc n),
      timers := [min 30000 (1000 * 2 ^ Suc n)]\<rparr>"
    using m t by (simp add: on_close_def Let_def backoff_step[OF r] backoff_positive)
  have step: "failures (Suc n) (connect initial_provider) =
      connect (?st\<lparr>connected := False, reconnect := min 30000 (1000 * 2 ^ Suc n), timers := []\<rparr>)"
    by (simp add: closed timer_fires_def)
  show ?case
    unfolding step using m s by (simp add: connect_def)
qed

lemma retry_delay_value: "retry_delay n = [min 30000 (1000 * 2 ^ Suc n)]"
proof -
  let ?st = "failures n (connect initial_provider)"
  from failures_state[of n] have m: "mounted ?st" and t: "timers ?st = []"
    and r: "reconnect ?st = (if n = 0 then 0 else min 30000 (1000 * 2 ^ n))" by simp_all
  show ?thesis
    unfolding retry_delay_def using m t
    by (simp add: on_close_def Let_def backoff_step[OF r] backoff_positive)
qed

lemma retry_delay_doubles: "retry_delay (Suc n) = [min 30000 (2 * hd (retry_delay n))]"
  by (simp add: retry_delay_value min_def)

text \<open>
  C6, amended: after the failure number \<open>n + 1\<close> in a row (a close, or an error and
  the close it brings) the provider schedules exactly one retry, with the delay
  \<open>min 30000 (1000 * 2 ^ (n + 1))\<close>: 2000 ms first, doubled by each further failure,
  capped at 30000 ms. It stays mounted and has opened \<open>n + 1\<close> sockets by then; an open
  resets the delay; only unmounting stops the retries. There is no bound on the number of
  attempts and no error state.
\<close>

theorem reconnect_backoff:
  "retry_delay n = [min 30000 (1000 * 2 ^ Suc n)]
   \<and> retry_delay (Suc n) = [min 30000 (2 * hd (retry_delay n))]
   \<and> timers (on_error (failures n (connect initial_provider))) = retry_delay n
   \<and> mounted (on_close (failures n (connect initial_provider)))
   \<and> sockets (failures n (connect initial_provider)) = n + 1
   \<and> reconnect (on_open (failures n (connect initial_provider))) = 0
   \<and> timers (on_close (unmount (failures n (connect initial_provider)))) = []"
proof -
  let ?st = "failures n (connect initial_provider)"
  from failures_state[of n] have m: "mounted ?st" and t: "timers ?st = []"
    and s: "sockets ?st = n + 1" by simp_all
  have "mounted (on_close ?st)" using m by (simp add: on_close_def Let_def)
  moreover have "reconnect (on_open ?st) = 0"
    by (simp add: on_open_def Let_def)
  moreover have "timers (on_close (unmount ?st)) = []"
    using t by (simp add: on_close_def unmount_def)
  moreover have "timers (on_error ?st) = retry_delay n"
    by (simp add: on_error_def retry_delay_def)
  ultimately show ?thesis using s retry_delay_value retry_delay_doubles by simp
qed

text \<open>
  C6, as stated: the retries stop after a bounded number of attempts. They do not: there
  is no number of failures in a row from which on the provider schedules no retry.
\<close>

theorem retries_unbounded_counterexample:
  "\<not> (\<exists>bound. \<forall>n \<ge> bound. retry_delay n = [])"
proof
  assume "\<exists>bound. \<forall>n \<ge> bound. retry_delay n = []"
  then obtain bound where "\<forall>n \<ge> bound. retry_delay n = []" ..
  then have "retry_delay bound = []" by simp
  then show False by (simp add: retry_delay_value)
qed

section \<open>Properties of the API client\<close>

lemma client_call:
  "try_catch (then_do (fetch request) (\<lambda>res. then_do (api_json res) (\<lambda>v. Inr (Some v))))
     (\<lambda>err. Inr None) = Inr (parsed_or_null fetch request)"
  by (simp add: try_catch_def then_do_def parsed_or_null_def split: sum.splits)

text \<open>
  C4: each of the four control calls of the client returns, whatever \<open>fetch\<close>, the
  response's \<^verbatim>\<open>json()\<close> and \<^verbatim>\<open>JSON.stringify\<close> do: the result is never an exception (\<open>Inl\<close>);
  it is the parsed body of the response when the fetch resolved and the body parsed, and
  \<^verbatim>\<open>null\<close> otherwise.
\<close>

theorem control_calls_never_throw:
  "registerStrategy api_base stringify fetch strategyName coin_name params =
     Inr (case stringify params of
            Inl err \<Rightarrow> None
          | Inr ps \<Rightarrow> parsed_or_null fetch (register_request api_base strategyName coin_name ps))
   \<and> unregisterStrategy api_base fetch sid =
       Inr (parsed_or_null fetch (unregister_request api_base sid))
   \<and> startEngine api_base fetch opts = Inr (parsed_or_null fetch (start_request api_base opts))
   \<and> stopEngine api_base fetch = Inr (parsed_or_null fetch (stop_request api_base))"
proof (intro conjI)
  show "registerStrategy api_base stringify fetch strategyName coin_name params =
     Inr (case stringify params of
            Inl err \<Rightarrow> None
          | Inr ps \<Rightarrow> parsed_or_null fetch (register_request api_base strategyName coin_name ps))"
  proof (cases "stringify params")
    case (Inl err)
    then show ?thesis by (simp add: registerStrategy_def try_catch_def then_do_def)
  next
    case (Inr ps)
    have "registerStrategy api_base stringify fetch strategyName coin_name params =
        try_catch (then_do (fetch (register_request api_base strategyName coin_name ps))
          (\<lambda>res. then_do (api_json res) (\<lambda>v. Inr (Some v)))) (\<lambda>err. Inr None)"
      by (simp add: registerStrategy_def then_do_def Inr)
    then show ?thesis by (simp add: client_call Inr)
  qed
  show "unregisterStrategy api_base fetch sid =
       Inr (parsed_or_null fetch (unregister_request api_base sid))"
    unfolding unregisterStrategy_def by (rule client_call)
  show "startEngine api_base fetch opts = Inr (parsed_or_null fetch (start_request api_base opts))"
    unfolding startEngine_def by (rule client_call)
  show "stopEngine api_base fetch = Inr (parsed_or_null fetch (stop_request api_base))"
    unfolding stopEngine_def by (rule client_call)
qed

section \<open>Properties of the bounded queue\<close>

lemma pipeline_step_keeps:
  assumes "pipeline_step C e st = Some st'" and "length (queue st) \<le> C"
  shows "length (queue st') \<le> C
    \<and> dispatched st' @ queue st' @ source st' = dispatched st @ queue st @ source st
    \<and> Suc (pending_work st') = pending_work st"
  using assms
  by (cases e)
    (auto simp: pipeline_step_def push_def pop_def pending_work_def
      split: list.splits if_splits)

lemma run_pipeline_keeps:
  assumes "run_pipeline C es st = Some st'" and "length (queue st) \<le> C"
  shows "length (queue st') \<le> C
    \<and> dispatched st' @ queue st' @ source st' = dispatched st @ queue st @ source st
    \<and> length es + pending_work st' = pending_work st"
  using assms
proof (induction es arbitrary: st)
  case Nil
  then show ?case by simp
next
  case (Cons e es)
  from Cons.prems(1) obtain mid where mid: "pipeline_step C e st = Some mid"
    and rest: "run_pipeline C es mid = Some st'"
    by (auto split: option.splits)
  from pipeline_step_keeps[OF mid Cons.prems(2)]
  have q: "length (queue mid) \<le> C"
    and c: "dispatched mid @ queue mid @ source mid = dispatched st @ queue st @ source st"
    and w: "Suc (pending_work mid) = pending_work st" by simp_all
  from Cons.IH[OF rest q] c w show ?case by simp
qed

lemma run_pipeline_append:
  "run_pipeline C (es @ es') st =
     (case run_pipeline C es st of None \<Rightarrow> None | Some mid \<Rightarrow> run_pipeline C es' mid)"
  by (induction es arbitrary: st) (auto split: option.splits)

lemma pipeline_progress:
  assumes "0 < C" and "source st \<noteq> [] \<or> queue st \<noteq> []"
  shows "push C st \<noteq> None \<or> pop st \<noteq> None"
  using assms by (auto simp: push_def pop_def split: list.splits)

lemma pipeline_completes:
  assumes "0 < C" and "length (queue st) \<le> C"
  shows "\<exists>es st'. run_pipeline C es st = Some st' \<and> source st' = [] \<and> queue st' = []"
  using assms(2)
proof (induction "pending_work st" arbitrary: st rule: less_induct)
  case less
  show ?case
  proof (cases "source st = [] \<and> queue st = []")
    case True
    have "run_pipeline C [] st = Some st" by simp
    with True show ?thesis by blast
  next
    case False
    with assms(1) have "push C st \<noteq> None \<or> pop st \<noteq> None"
      by (intro pipeline_progress) auto
    then obtain e mid where step: "pipeline_step C e st = Some mid"
      by (metis not_None_eq pipeline_event.simps(3,4) pipeline_step_def)
    from pipeline_step_keeps[OF step less.prems]
    have q: "length (queue mid) \<le> C" and w: "pending_work mid < pending_work st" by auto
    from less.hyps[OF w q] obtain es st' where
      "run_pipeline C es mid = Some st'" "source st' = []" "queue st' = []" by blast
    with step have "run_pipeline C (e # es) st = Some st' \<and> source st' = [] \<and> queue st' = []"
      by simp
    then show ?thesis by blast
  qed
qed

text \<open>
  C3: in every state a run of the pipeline reaches, the queue holds at most \<open>C\<close> ticks,
  and no tick is lost or reordered: the ticks dispatched, queued and still at the source
  are the ticks of the source, in their order. When the queue is full a push is not
  enabled (the producer waits; the tick stays at the source). A run has at most two steps
  per tick; while a tick is not yet dispatched some step is enabled, and the run can
  be continued until every tick is dispatched (for a capacity of at least one).
\<close>

theorem bounded_queue_backpressure:
  assumes "run_pipeline C es (start_pipeline ticks) = Some st"
  shows "length (queue st) \<le> C
    \<and> dispatched st @ queue st @ source st = ticks
    \<and> (length (queue st) = C \<longrightarrow> push C st = None \<and> run_pipeline C (es @ [Push]) (start_pipeline ticks) = None)
    \<and> length es \<le> 2 * length ticks
    \<and> (0 < C \<and> dispatched st \<noteq> ticks \<longrightarrow> push C st \<noteq> None \<or> pop st \<noteq> None)
    \<and> (0 < C \<longrightarrow> (\<exists>es' st'. run_pipeline C (es @ es') (start_pipeline ticks) = Some st'
                          \<and> dispatched st' = ticks))"
proof -
  have q0: "length (queue (start_pipeline ticks)) \<le> C" by (simp add: start_pipeline_def)
  from run_pipeline_keeps[OF assms q0]
  have q: "length (queue st) \<le> C"
    and c: "dispatched st @ queue st @ source st = ticks"
    and w: "length es + pending_work st = 2 * length ticks"
    by (simp_all add: start_pipeline_def pending_work_def)
  have full: "push C st = None \<and> run_pipeline C (es @ [Push]) (start_pipeline ticks) = None"
    if "length (queue st) = C"
  proof -
    from that have "push C st = None" by (simp add: push_def split: list.splits)
    then show ?thesis by (simp add: run_pipeline_append assms pipeline_step_def)
  qed
  have prog: "push C st \<noteq> None \<or> pop st \<noteq> None" if "0 < C" "dispatched st \<noteq> ticks"
  proof -
    from that(2) c have "source st \<noteq> [] \<or> queue st \<noteq> []" by auto
    with that(1) show ?thesis by (rule pipeline_progress)
  qed
  have compl: "\<exists>es' st'. run_pipeline C (es @ es') (start_pipeline ticks) = Some st'
      \<and> dispatched st' = ticks" if "0 < C"
  proof -
    from pipeline_completes[OF that q] obtain es' st' where
      r: "run_pipeline C es' st = Some st'" and e: "source st' = []" "queue st' = []" by blast
    from run_pipeline_keeps[OF r q] c e have "dispatched st' = ticks" by simp
    moreover have "run_pipeline C (es @ es') (start_pipeline ticks) = Some st'"
      by (simp add: run_pipeline_append assms r)
    ultimately show ?thesis by blast
  qed
  from q c w full prog compl show ?thesis by auto
qed

theorem bounded_queue_backpressure_witness:
  "run_pipeline 2 [Push, Push] (start_pipeline three_ticks)
     = Some \<lparr>source = drop 2 three_ticks, queue = take 2 three_ticks, dispatched = []\<rparr>
   \<and> run_pipeline 2 [Push, Push, Push] (start_pipeline three_ticks) = None
   \<and> run_pipeline 2 [Push, Push, Pop, Push, Pop, Pop] (start_pipeline three_ticks)
     = Some \<lparr>source = [], queue = [], dispatched = three_ticks\<rparr>"
proof -
  have r: "run_pipeline 2 [Push, Push] (start_pipeline three_ticks)
     = Some \<lparr>source = drop 2 three_ticks, queue = take 2 three_ticks, dispatched = []\<rparr>"
    by (simp add: start_pipeline_def three_ticks_def pipeline_step_def push_def pop_def)
  have full: "length (queue \<lparr>source = drop 2 three_ticks, queue = take 2 three_ticks,
      dispatched = []\<rparr>) = 2"
    by (simp add: three_ticks_def)
  from bounded_queue_backpressure[OF r] full
  have blocked: "run_pipeline 2 ([Push, Push] @ [Push]) (start_pipeline three_ticks) = None"
    by blast
  have fin: "run_pipeline 2 [Push, Push, Pop, Push, Pop, Pop] (start_pipeline three_ticks)
     = Some \<lparr>source = [], queue = [], dispatched = three_ticks\<rparr>"
    by (simp add: start_pipeline_def three_ticks_def pipeline_step_def push_def pop_def)
  from r blocked fin show ?thesis by simp
qed

section \<open>Properties of dispatch and the store\<close>

lemma collect_raised:
  "evaluate s t = Raised \<Longrightarrow> collect arith t st s = count_error (strategyId s) 1 st"
  by (simp add: collect_def)

lemma collect_count_error:
  "collect arith t (count_error sid k st) s = count_error sid k (collect arith t st s)"
  by (auto simp: collect_def count_error_def recordTrade_def Let_def fun_eq_iff
      split: evaluation.splits option.splits)

lemma foldl_collect_count_error:
  "foldl (collect arith t) (count_error sid k st) ss
     = count_error sid k (foldl (collect arith t) st ss)"
  by (induction ss arbitrary: st) (simp_all add: collect_count_error)

lemma count_error_add:
  "count_error sid j (count_error sid k st) = count_error sid (k + j) st"
  by (simp add: count_error_def fun_eq_iff)

lemma count_error_zero: "count_error sid 0 st = st"
  by (simp add: count_error_def)

lemma dispatch_Cons:
  "dispatch (s # rs) t = (if interested t s then [s] else []) @ dispatch rs t"
  by (simp add: dispatch_def)

lemma dispatch_append: "dispatch (rs1 @ rs2) t = dispatch rs1 t @ dispatch rs2 t"
  by (simp add: dispatch_def)

lemma process_tick_thrower:
  assumes "evaluate s t = Raised"
  shows "process_tick arith (rs1 @ s # rs2) st t
    = count_error (strategyId s) (if interested t s then 1 else 0)
        (process_tick arith (rs1 @ rs2) st t)"
  using assms
  by (simp add: process_tick_def dispatch_Cons dispatch_append collect_raised
      foldl_collect_count_error count_error_zero)

lemma process_tick_count_error:
  "process_tick arith rs (count_error sid k st) t = count_error sid k (process_tick arith rs st t)"
  by (simp add: process_tick_def foldl_collect_count_error)

lemma process_batch_thrower:
  assumes "\<forall>t \<in> set ticks. evaluate s t = Raised"
  shows "process_batch arith (rs1 @ s # rs2) ticks st
    = count_error (strategyId s) (length (filter (\<lambda>t. interested t s) ticks))
        (process_batch arith (rs1 @ rs2) ticks st)"
  using assms
proof (induction ticks rule: rev_induct)
  case Nil
  show ?case by (simp add: process_batch_def count_error_zero)
next
  case (snoc t ticks)
  then have r: "evaluate s t = Raised" and
    ih: "process_batch arith (rs1 @ s # rs2) ticks st
      = count_error (strategyId s) (length (filter (\<lambda>t. interested t s) ticks))
          (process_batch arith (rs1 @ rs2) ticks st)" by simp_all
  have "process_batch arith (rs1 @ s # rs2) (ticks @ [t]) st
      = process_tick arith (rs1 @ s # rs2) (process_batch arith (rs1 @ s # rs2) ticks st) t"
    by (simp add: process_batch_def)
  also have "\<dots> = count_error (strategyId s) (if interested t s then 1 else 0)
      (process_tick arith (rs1 @ rs2)
         (count_error (strategyId s) (length (filter (\<lambda>t. interested t s) ticks))
            (process_batch arith (rs1 @ rs2) ticks st)) t)"
    by (simp only: process_tick_thrower[OF r] ih)
  also have "\<dots> = count_error (strategyId s) (length (filter (\<lambda>t. interested t s) (ticks @ [t])))
      (process_batch arith (rs1 @ rs2) (ticks @ [t]) st)"
    by (simp add: process_tick_count_error count_error_add count_error_zero process_batch_def)
  finally show ?case .
qed

lemma agree_off_collect:
  "agree_off sid a b \<Longrightarrow> agree_off sid (collect arith t a s) (collect arith t b s)"
  by (auto simp: agree_off_def collect_def count_error_def recordTrade_def Let_def
      split: evaluation.splits option.splits)

lemma agree_off_own:
  "strategyId s = sid \<Longrightarrow> agree_off sid a b \<Longrightarrow> agree_off sid (collect arith t a s) b"
  by (auto simp: agree_off_def collect_def count_error_def recordTrade_def Let_def
      split: evaluation.splits option.splits)

lemma agree_off_foldl:
  "agree_off sid a b \<Longrightarrow>
     agree_off sid (foldl (collect arith t) a ss) (foldl (collect arith t) b ss)"
  by (induction ss arbitrary: a b) (simp_all add: agree_off_collect)

lemma agree_off_tick:
  assumes "agree_off (strategyId s) a b"
  shows "agree_off (strategyId s) (process_tick arith (rs1 @ s # rs2) a t)
           (process_tick arith (rs1 @ rs2) b t)"
proof -
  have "agree_off (strategyId s) (foldl (collect arith t) a (dispatch rs1 t))
      (foldl (collect arith t) b (dispatch rs1 t))"
    using assms by (rule agree_off_foldl)
  then have "agree_off (strategyId s)
      (foldl (collect arith t) (foldl (collect arith t) a (dispatch rs1 t))
         (if interested t s then [s] else []))
      (foldl (collect arith t) b (dispatch rs1 t))"
    by (simp add: agree_off_own)
  then have "agree_off (strategyId s)
      (foldl (collect arith t) (foldl (collect arith t) (foldl (collect arith t) a (dispatch rs1 t))
         (if interested t s then [s] else [])) (dispatch rs2 t))
      (foldl (collect arith t) (foldl (collect arith t) b (dispatch rs1 t)) (dispatch rs2 t))"
    by (rule agree_off_foldl)
  then show ?thesis
    by (simp add: process_tick_def dispatch_Cons dispatch_append)
qed

lemma agree_off_batch:
  assumes "agree_off (strategyId s) a b"
  shows "agree_off (strategyId s) (process_batch arith (rs1 @ s # rs2) ticks a)
           (process_batch arith (rs1 @ rs2) ticks b)"
  using assms
  by (induction ticks arbitrary: a b) (simp_all add: process_batch_def agree_off_tick)

text \<open>
  C7: registering a strategy \<open>s\<close> changes nothing for the others: after a batch of ticks
  every other strategy has the account, the metrics and the error count it has when \<open>s\<close>
  is not registered. On a tick on which \<open>s\<close> throws, the whole store is the one reached
  without \<open>s\<close> (global metrics and trade history included: the other tasks were all
  processed), but for the error count of \<open>s\<close>, raised by one when the tick was dispatched
  to it; and so for a batch on every tick of which \<open>s\<close> throws, the error count raised by
  one for every tick dispatched to it.
\<close>

theorem failing_strategy_isolated:
  "(\<forall>other. other \<noteq> strategyId s \<longrightarrow>
      strategyMetrics (process_batch arith (rs1 @ s # rs2) ticks st) other
        = strategyMetrics (process_batch arith (rs1 @ rs2) ticks st) other
      \<and> errorCount (process_batch arith (rs1 @ s # rs2) ticks st) other
        = errorCount (process_batch arith (rs1 @ rs2) ticks st) other)
   \<and> (evaluate s t = Raised \<longrightarrow>
        process_tick arith (rs1 @ s # rs2) st t
          = count_error (strategyId s) (if interested t s then 1 else 0)
              (process_tick arith (rs1 @ rs2) st t))
   \<and> ((\<forall>t \<in> set ticks. evaluate s t = Raised) \<longrightarrow>
        process_batch arith (rs1 @ s # rs2) ticks st
          = count_error (strategyId s) (length (filter (\<lambda>t. interested t s) ticks))
              (process_batch arith (rs1 @ rs2) ticks st))"
proof (intro conjI impI)
  have "agree_off (strategyId s) st st" by (simp add: agree_off_def)
  then have "agree_off (strategyId s) (process_batch arith (rs1 @ s # rs2) ticks st)
      (process_batch arith (rs1 @ rs2) ticks st)"
    by (rule agree_off_batch)
  then show "\<forall>other. other \<noteq> strategyId s \<longrightarrow>
      strategyMetrics (process_batch arith (rs1 @ s # rs2) ticks st) other
        = strategyMetrics (process_batch arith (rs1 @ rs2) ticks st) other
      \<and> errorCount (process_batch arith (rs1 @ s # rs2) ticks st) other
        = errorCount (process_batch arith (rs1 @ rs2) ticks st) other"
    by (simp add: agree_off_def)
next
  assume "evaluate s t = Raised"
  then show "process_tick arith (rs1 @ s # rs2) st t
          = count_error (strategyId s) (if interested t s then 1 else 0)
              (process_tick arith (rs1 @ rs2) st t)"
    by (rule process_tick_thrower)
next
  assume "\<forall>t \<in> set ticks. evaluate s t = Raised"
  then show "process_batch arith (rs1 @ s # rs2) ticks st
          = count_error (strategyId s) (length (filter (\<lambda>t. interested t s) ticks))
              (process_batch arith (rs1 @ rs2) ticks st)"
    by (rule process_batch_thrower)
qed

lemma example_batch:
  "strategyMetrics (process_batch counting [buyer] three_ticks empty_store) ''BTC_SMA'' = 3"
  "globalMetrics (process_batch counting [buyer] three_ticks empty_store) = 3"
  "errorCount (process_batch counting [buyer] three_ticks empty_store) sid = 0"
  by (simp_all add: process_batch_def process_tick_def dispatch_def interested_def collect_def
      recordTrade_def counting_def buyer_def three_ticks_def empty_store_def Let_def)

theorem failing_strategy_isolated_witness:
  "evaluate thrower (three_ticks ! 0) = Raised
   \<and> strategyMetrics (process_batch counting [thrower, buyer] three_ticks empty_store) ''BTC_SMA'' = 3
   \<and> globalMetrics (process_batch counting [thrower, buyer] three_ticks empty_store) = 3
   \<and> errorCount (process_batch counting [thrower, buyer] three_ticks empty_store) ''BTC_Momentum'' = 3
   \<and> errorCount (process_batch counting [thrower, buyer] three_ticks empty_store) ''BTC_SMA'' = 0"
proof -
  have raised: "\<forall>t \<in> set three_ticks. evaluate thrower t = Raised"
    by (simp add: thrower_def)
  have k: "length (filter (\<lambda>t. interested t thrower) three_ticks) = 3"
    by (simp add: interested_def thrower_def three_ticks_def)
  have sid: "strategyId thrower = ''BTC_Momentum''" by (simp add: thrower_def)
  from failing_strategy_isolated[of thrower counting "[]" "[buyer]" three_ticks empty_store] raised
  have "process_batch counting ([] @ thrower # [buyer]) three_ticks empty_store
      = count_error (strategyId thrower) (length (filter (\<lambda>t. interested t thrower) three_ticks))
          (process_batch counting ([] @ [buyer]) three_ticks empty_store)"
    by blast
  then have eq: "process_batch counting [thrower, buyer] three_ticks empty_store
      = count_error ''BTC_Momentum'' 3 (process_batch counting [buyer] three_ticks empty_store)"
    unfolding k sid by simp
  have "evaluate thrower (three_ticks ! 0) = Raised" by (simp add: thrower_def)
  then show ?thesis
    unfolding eq by (simp add: example_batch count_error_def)
qed

section \<open>Properties of concurrent submission\<close>

lemma others_wait_iff:
  "others_wait w st \<longleftrightarrow> (\<forall>v < length (workers st). v \<noteq> w \<longrightarrow> phase (workers st ! v) = Waiting)"
  by (auto simp: others_wait_def list_all_iff)

lemma snapshots_whole_iff:
  "snapshots_whole st \<longleftrightarrow> (\<forall>c rs. (c, rs) \<in> set (snapshots st) \<longrightarrow> c = length rs)"
  by (auto simp: snapshots_whole_def list_all_iff)

lemma sum_list_map_update:
  "w < length xs \<Longrightarrow> sum_list (map f (xs[w := x])) + f (xs ! w) = sum_list (map f xs) + (f x :: nat)"
proof (induction xs arbitrary: w)
  case Nil
  then show ?case by simp
next
  case (Cons a xs)
  then show ?case by (cases w) auto
qed

lemma set_phase_simps:
  "lock (set_phase w p st) = lock st"
  "trade_count (set_phase w p st) = trade_count st"
  "records (set_phase w p st) = records st"
  "snapshots (set_phase w p st) = snapshots st"
  "length (workers (set_phase w p st)) = length (workers st)"
  by (simp_all add: set_phase_def)

lemma set_phase_nth:
  "w < length (workers st) \<Longrightarrow> v < length (workers st) \<Longrightarrow>
     phase (workers (set_phase w p st) ! v) = (if v = w then p else phase (workers st ! v))"
  "w < length (workers st) \<Longrightarrow> v < length (workers st) \<Longrightarrow>
     todo (workers (set_phase w p st) ! v) = todo (workers st ! v)"
  by (auto simp: set_phase_def nth_list_update)

lemma remaining_set_phase:
  "w < length (workers st) \<Longrightarrow> remaining (set_phase w p st) = remaining st"
  using sum_list_map_update[of w "workers st" "\<lambda>w. length (todo w)" "(workers st ! w)\<lparr>phase := p\<rparr>"]
  by (simp add: remaining_def set_phase_def)

lemma others_wait_set_phase:
  "w < length (workers st) \<Longrightarrow> others_wait w (set_phase w p st) = others_wait w st"
  by (auto simp: others_wait_iff set_phase_simps set_phase_nth)

lemma snapshots_whole_set_phase: "snapshots_whole (set_phase w p st) = snapshots_whole st"
  by (simp add: snapshots_whole_def set_phase_simps)

lemma remaining_release:
  assumes "w < length (workers st)" and "todo (workers st ! w) \<noteq> []"
  shows "Suc (remaining (st\<lparr>lock := Free,
      workers := (workers st)[w := \<lparr>todo = tl (todo (workers st ! w)), phase = Waiting\<rparr>]\<rparr>))
    = remaining st"
proof -
  from assms(2) obtain t rest where tr: "todo (workers st ! w) = t # rest"
    by (cases "todo (workers st ! w)") auto
  from sum_list_map_update[OF assms(1), of "\<lambda>w. length (todo w)"
      "\<lparr>todo = tl (todo (workers st ! w)), phase = Waiting\<rparr>"]
  show ?thesis by (simp add: remaining_def tr)
qed

lemma field_update_simps:
  "remaining (st\<lparr>trade_count := n\<rparr>) = remaining st"
  "remaining (st\<lparr>records := r\<rparr>) = remaining st"
  "remaining (st\<lparr>lock := l\<rparr>) = remaining st"
  "others_wait w (st\<lparr>trade_count := n\<rparr>) = others_wait w st"
  "others_wait w (st\<lparr>records := r\<rparr>) = others_wait w st"
  "others_wait w (st\<lparr>lock := l\<rparr>) = others_wait w st"
  "snapshots_whole (st\<lparr>trade_count := n\<rparr>) = snapshots_whole st"
  "snapshots_whole (st\<lparr>records := r\<rparr>) = snapshots_whole st"
  "snapshots_whole (st\<lparr>lock := l\<rparr>) = snapshots_whole st"
  by (simp_all add: remaining_def others_wait_def snapshots_whole_def)

lemma step_acquire:
  assumes "lock_invariant T st" and "system_step (Acquire w) st = Some st'"
  shows "lock_invariant T st'"
proof -
  from assms(2) have w: "w < length (workers st)" and free: "lock st = Free"
    and ph: "phase (workers st ! w) = Waiting" and td: "todo (workers st ! w) \<noteq> []"
    and st': "st' = set_phase w Holding (st\<lparr>lock := Writer w\<rparr>)"
    by (auto simp: system_step_def writer_step_def Let_def split: if_splits)
  from assms(1) free have inv: "snapshots_whole st" "others_wait (length (workers st)) st"
    "trade_count st = length (records st)" "trade_count st + remaining st = T"
    by (simp_all add: lock_invariant_def)
  have ow: "others_wait w st" using inv(2) by (simp add: others_wait_iff)
  show ?thesis
    unfolding st' lock_invariant_def
    using w td ow inv
    by (simp add: set_phase_simps set_phase_nth remaining_set_phase
        others_wait_set_phase snapshots_whole_set_phase field_update_simps)
qed

lemma inside_holds_lock:
  assumes "lock_invariant T st" and "w < length (workers st)"
    and "phase (workers st ! w) \<noteq> Waiting"
  shows "lock st = Writer w"
proof (cases "lock st")
  case (Writer v)
  with assms(1) have "others_wait v st" by (simp add: lock_invariant_def)
  with assms(2,3) have "v = w" by (auto simp: others_wait_iff)
  with Writer show ?thesis by simp
next
  case Free
  with assms show ?thesis by (auto simp: lock_invariant_def others_wait_iff)
next
  case Reader
  with assms show ?thesis by (auto simp: lock_invariant_def others_wait_iff)
qed

lemma step_load:
  assumes "lock_invariant T st" and "system_step (Load w) st = Some st'"
  shows "lock_invariant T st'"
proof -
  from assms(2) have w: "w < length (workers st)"
    and ph: "phase (workers st ! w) = Holding"
    and st': "st' = set_phase w (Loaded (trade_count st)) st"
    by (auto simp: system_step_def writer_step_def Let_def split: if_splits)
  from ph have "lock st = Writer w"
    by (intro inside_holds_lock[OF assms(1) w]) simp
  with assms(1) ph w show ?thesis
    unfolding st' lock_invariant_def
    by (simp add: set_phase_simps set_phase_nth remaining_set_phase
        others_wait_set_phase snapshots_whole_set_phase field_update_simps)
qed

lemma step_count:
  assumes "lock_invariant T st" and "system_step (Count w) st = Some st'"
  shows "lock_invariant T st'"
proof -
  from assms(2) obtain c where w: "w < length (workers st)"
    and ph: "phase (workers st ! w) = Loaded c"
    and st': "st' = set_phase w Counted (st\<lparr>trade_count := c + 1\<rparr>)"
    by (auto simp: system_step_def writer_step_def Let_def split: if_splits phase.splits)
  from ph have holder: "lock st = Writer w"
    by (intro inside_holds_lock[OF assms(1) w]) simp
  from assms(1) holder ph w show ?thesis
    unfolding st' lock_invariant_def
    by (simp add: set_phase_simps set_phase_nth remaining_set_phase
        others_wait_set_phase snapshots_whole_set_phase field_update_simps)
qed

lemma step_append:
  assumes "lock_invariant T st" and "system_step (Append w) st = Some st'"
  shows "lock_invariant T st'"
proof -
  from assms(2) obtain t rest where w: "w < length (workers st)"
    and ph: "phase (workers st ! w) = Counted"
    and td: "todo (workers st ! w) = t # rest"
    and st': "st' = set_phase w Appended (st\<lparr>records := records st @ [t]\<rparr>)"
    by (auto simp: system_step_def writer_step_def Let_def split: if_splits list.splits)
  from ph have holder: "lock st = Writer w"
    by (intro inside_holds_lock[OF assms(1) w]) simp
  from assms(1) holder ph w show ?thesis
    unfolding st' lock_invariant_def
    by (simp add: set_phase_simps set_phase_nth remaining_set_phase
        others_wait_set_phase snapshots_whole_set_phase field_update_simps)
qed

lemma step_release:
  assumes "lock_invariant T st" and "system_step (Release w) st = Some st'"
  shows "lock_invariant T st'"
proof -
  from assms(2) have w: "w < length (workers st)"
    and ph: "phase (workers st ! w) = Appended"
    and st': "st' = st\<lparr>lock := Free,
        workers := (workers st)[w := \<lparr>todo = tl (todo (workers st ! w)), phase = Waiting\<rparr>]\<rparr>"
    by (auto simp: system_step_def writer_step_def Let_def split: if_splits)
  from ph have holder: "lock st = Writer w"
    by (intro inside_holds_lock[OF assms(1) w]) simp
  with assms(1) ph have td: "todo (workers st ! w) \<noteq> []" and ow: "others_wait w st"
    and sw: "snapshots_whole st"
    and tc: "trade_count st = length (records st)" "trade_count st + remaining st = T + 1"
    by (simp_all add: lock_invariant_def)
  from remaining_release[OF w td] have rem: "Suc (remaining st') = remaining st"
    unfolding st' .
  have ow': "others_wait (length (workers st')) st'"
    using ow w unfolding st' by (auto simp: others_wait_iff nth_list_update)
  have sw': "snapshots_whole st'" using sw unfolding st' by (simp add: snapshots_whole_def)
  have "lock st' = Free" "trade_count st' = trade_count st" "records st' = records st"
    unfolding st' by simp_all
  with ow' sw' tc rem show ?thesis
    unfolding lock_invariant_def by simp
qed

lemma step_reader:
  assumes "lock_invariant T st" and "system_step e st = Some st'"
    and "e = ReaderAcquire \<or> e = ReaderCopy \<or> e = ReaderRelease"
  shows "lock_invariant T st'"
  using assms
  by (auto simp: system_step_def lock_invariant_def remaining_def others_wait_def
      snapshots_whole_def split: if_splits holder.splits)

lemma step_invariant:
  assumes "lock_invariant T st" and "system_step e st = Some st'"
  shows "lock_invariant T st'"
proof (cases e)
  case (Acquire w) with assms show ?thesis by (simp add: step_acquire)
next
  case (Load w) with assms show ?thesis by (simp add: step_load)
next
  case (Count w) with assms show ?thesis by (simp add: step_count)
next
  case (Append w) with assms show ?thesis by (simp add: step_append)
next
  case (Release w) with assms show ?thesis by (simp add: step_release)
next
  case ReaderAcquire with assms show ?thesis by (simp add: step_reader)
next
  case ReaderCopy with assms show ?thesis by (simp add: step_reader)
next
  case ReaderRelease with assms show ?thesis by (simp add: step_reader)
qed

lemma run_invariant:
  assumes "run_system es st = Some st'" and "lock_invariant T st"
  shows "lock_invariant T st'"
  using assms
proof (induction es arbitrary: st)
  case Nil
  then show ?case by simp
next
  case (Cons e es)
  from Cons.prems(1) obtain mid where mid: "system_step e st = Some mid"
    and rest: "run_system es mid = Some st'"
    by (auto split: option.splits)
  from step_invariant[OF Cons.prems(2) mid] rest show ?case by (rule Cons.IH[rotated])
qed

lemma start_invariant: "lock_invariant (length (concat work)) (start_system work)"
proof -
  have "sum_list (map (\<lambda>w. length (todo w)) (map (\<lambda>ts. \<lparr>todo = ts, phase = Waiting\<rparr>) work))
      = length (concat work)"
    by (induction work) simp_all
  then show ?thesis
    by (simp add: lock_invariant_def start_system_def remaining_def others_wait_iff
        snapshots_whole_def)
qed

lemma remaining_zero_iff:
  "remaining st = 0 \<longleftrightarrow> (\<forall>w \<in> set (workers st). todo w = [])"
  by (auto simp: remaining_def)

lemma system_progress:
  assumes "lock_invariant T st" and "\<exists>w \<in> set (workers st). todo w \<noteq> []"
  shows "\<exists>e. system_step e st \<noteq> None"
proof (cases "lock st")
  case Free
  from assms(2) obtain w where w: "w < length (workers st)" "todo (workers st ! w) \<noteq> []"
    by (auto simp: in_set_conv_nth)
  from assms(1) Free w(1) have "phase (workers st ! w) = Waiting"
    by (auto simp: lock_invariant_def others_wait_iff)
  with Free w have "system_step (Acquire w) st \<noteq> None"
    by (simp add: system_step_def writer_step_def)
  then show ?thesis ..
next
  case Reader
  then have "system_step ReaderRelease st \<noteq> None" by (simp add: system_step_def)
  then show ?thesis ..
next
  case (Writer w)
  with assms(1) have w: "w < length (workers st)" and td: "todo (workers st ! w) \<noteq> []"
    and ph: "phase (workers st ! w) \<noteq> Waiting"
    by (auto simp: lock_invariant_def split: phase.splits)
  from td obtain t rest where tr: "todo (workers st ! w) = t # rest"
    by (cases "todo (workers st ! w)") auto
  show ?thesis
  proof (cases "phase (workers st ! w)")
    case Waiting with ph show ?thesis by simp
  next
    case Holding
    with w have "system_step (Load w) st \<noteq> None" by (simp add: system_step_def writer_step_def)
    then show ?thesis ..
  next
    case (Loaded c)
    with w have "system_step (Count w) st \<noteq> None" by (simp add: system_step_def writer_step_def)
    then show ?thesis ..
  next
    case Counted
    with w tr have "system_step (Append w) st \<noteq> None"
      by (simp add: system_step_def writer_step_def)
    then show ?thesis ..
  next
    case Appended
    with w have "system_step (Release w) st \<noteq> None"
      by (simp add: system_step_def writer_step_def)
    then show ?thesis ..
  qed
qed

lemma mset_concat_update:
  "w < length ws \<Longrightarrow>
     mset (concat (map f (ws[w := x]))) + mset (f (ws ! w)) = mset (concat (map f ws)) + mset (f x)"
proof (induction ws arbitrary: w)
  case Nil
  then show ?case by simp
next
  case (Cons a ws)
  then show ?case by (cases w) (auto simp: ac_simps)
qed

lemma todo_set_phase:
  "w < length (workers st) \<Longrightarrow>
     map todo (workers (set_phase w p st)) = map todo (workers st)"
  by (simp add: set_phase_def map_update list_update_same_conv)

lemma submitted_step:
  assumes "lock_invariant T st" and "system_step e st = Some st'"
  shows "submitted st' = submitted st"
proof (cases e)
  case (Acquire w)
  with assms(2) have w: "w < length (workers st)" and free: "lock st = Free"
    and st': "st' = set_phase w Holding (st\<lparr>lock := Writer w\<rparr>)"
    by (auto simp: system_step_def writer_step_def Let_def split: if_splits)
  show ?thesis
    using w free unfolding st' submitted_def
    by (simp add: set_phase_simps set_phase_nth todo_set_phase)
next
  case (Load w)
  with assms(2) have w: "w < length (workers st)" and ph: "phase (workers st ! w) = Holding"
    and st': "st' = set_phase w (Loaded (trade_count st)) st"
    by (auto simp: system_step_def writer_step_def Let_def split: if_splits)
  from ph have "lock st = Writer w" by (intro inside_holds_lock[OF assms(1) w]) simp
  then show ?thesis
    using w ph unfolding st' submitted_def
    by (simp add: set_phase_simps set_phase_nth todo_set_phase)
next
  case (Count w)
  with assms(2) obtain c where w: "w < length (workers st)"
    and ph: "phase (workers st ! w) = Loaded c"
    and st': "st' = set_phase w Counted (st\<lparr>trade_count := c + 1\<rparr>)"
    by (auto simp: system_step_def writer_step_def Let_def split: if_splits phase.splits)
  from ph have "lock st = Writer w" by (intro inside_holds_lock[OF assms(1) w]) simp
  then show ?thesis
    using w ph unfolding st' submitted_def
    by (simp add: set_phase_simps set_phase_nth todo_set_phase)
next
  case (Append w)
  with assms(2) obtain t rest where w: "w < length (workers st)"
    and ph: "phase (workers st ! w) = Counted"
    and td: "todo (workers st ! w) = t # rest"
    and st': "st' = set_phase w Appended (st\<lparr>records := records st @ [t]\<rparr>)"
    by (auto simp: system_step_def writer_step_def Let_def split: if_splits list.splits)
  from ph have "lock st = Writer w" by (intro inside_holds_lock[OF assms(1) w]) simp
  then show ?thesis
    using w ph td unfolding st' submitted_def
    by (simp add: set_phase_simps set_phase_nth todo_set_phase)
next
  case (Release w)
  with assms(2) have w: "w < length (workers st)"
    and ph: "phase (workers st ! w) = Appended"
    and st': "st' = st\<lparr>lock := Free,
        workers := (workers st)[w := \<lparr>todo = tl (todo (workers st ! w)), phase = Waiting\<rparr>]\<rparr>"
    by (auto simp: system_step_def writer_step_def Let_def split: if_splits)
  from ph have holder: "lock st = Writer w" by (intro inside_holds_lock[OF assms(1) w]) simp
  with assms(1) have "todo (workers st ! w) \<noteq> []" by (simp add: lock_invariant_def)
  then obtain t rest where td: "todo (workers st ! w) = t # rest"
    by (cases "todo (workers st ! w)") auto
  from mset_concat_update[OF w, of todo "\<lparr>todo = tl (todo (workers st ! w)), phase = Waiting\<rparr>"]
  have eq: "mset (concat (map todo (workers st)))
      = add_mset t (mset (concat (map todo ((workers st)[w := \<lparr>todo = rest, phase = Waiting\<rparr>]))))"
    by (simp add: td)
  show ?thesis
    using holder ph unfolding st' submitted_def
    by (simp add: td eq)
next
  case ReaderAcquire
  with assms(2) show ?thesis
    by (auto simp: system_step_def submitted_def split: if_splits)
next
  case ReaderCopy
  with assms(2) show ?thesis
    by (auto simp: system_step_def submitted_def split: if_splits)
next
  case ReaderRelease
  with assms(2) show ?thesis
    by (auto simp: system_step_def submitted_def split: if_splits)
qed

lemma submitted_run:
  assumes "run_system es st = Some st'" and "lock_invariant T st"
  shows "submitted st' = submitted st"
  using assms
proof (induction es arbitrary: st)
  case Nil
  then show ?case by simp
next
  case (Cons e es)
  from Cons.prems(1) obtain mid where mid: "system_step e st = Some mid"
    and rest: "run_system es mid = Some st'"
    by (auto split: option.splits)
  from Cons.IH[OF rest step_invariant[OF Cons.prems(2) mid]] submitted_step[OF Cons.prems(2) mid]
  show ?case by simp
qed

lemma submitted_start: "submitted (start_system work) = mset (concat work)"
  by (simp add: submitted_def start_system_def comp_def)

lemma submitted_final:
  assumes "\<forall>w \<in> set (workers st). todo w = []" and "lock_invariant T st"
  shows "submitted st = mset (records st)"
proof -
  from assms(1) have "concat (map todo (workers st)) = []" by simp
  moreover have "(case lock st of
            Writer w \<Rightarrow>
              if phase (workers st ! w) = Appended then mset (take 1 (todo (workers st ! w)))
              else {#}
          | _ \<Rightarrow> {#}) = {#}"
  proof (cases "lock st")
    case (Writer w)
    with assms(2) have "w < length (workers st)" by (simp add: lock_invariant_def)
    with assms(1) have "todo (workers st ! w) = []" by (metis nth_mem)
    with Writer show ?thesis by simp
  qed simp_all
  ultimately show ?thesis by (simp add: submitted_def)
qed

lemma next_step:
  assumes inv: "lock_invariant T st" and left: "0 < remaining st"
  shows "\<exists>e st'. system_step e st = Some st' \<and> steps_left st' < steps_left st"
proof (cases "lock st")
  case Free
  from left have "\<not> (\<forall>x \<in> set (workers st). todo x = [])"
    using remaining_zero_iff[of st] by simp
  then obtain x where "x \<in> set (workers st)" "todo x \<noteq> []" by blast
  then obtain w where w: "w < length (workers st)" and td: "todo (workers st ! w) \<noteq> []"
    by (metis in_set_conv_nth)
  from inv Free w have ph: "phase (workers st ! w) = Waiting"
    by (auto simp: lock_invariant_def others_wait_iff)
  let ?st' = "set_phase w Holding (st\<lparr>lock := Writer w\<rparr>)"
  have "system_step (Acquire w) st = Some ?st'"
    using Free w td ph by (simp add: system_step_def writer_step_def)
  moreover have "steps_left ?st' < steps_left st"
    using Free w left
    by (simp add: steps_left_def set_phase_simps set_phase_nth remaining_set_phase
        field_update_simps)
  ultimately show ?thesis by blast
next
  case Reader
  have "system_step ReaderRelease st = Some (st\<lparr>lock := Free\<rparr>)"
    using Reader by (simp add: system_step_def)
  moreover have "steps_left (st\<lparr>lock := Free\<rparr>) < steps_left st"
    using Reader by (simp add: steps_left_def field_update_simps)
  ultimately show ?thesis by blast
next
  case (Writer w)
  with inv have w: "w < length (workers st)" and td: "todo (workers st ! w) \<noteq> []"
    and ph: "phase (workers st ! w) \<noteq> Waiting"
    by (auto simp: lock_invariant_def split: phase.splits)
  from td obtain t rest where tr: "todo (workers st ! w) = t # rest"
    by (cases "todo (workers st ! w)") auto
  show ?thesis
  proof (cases "phase (workers st ! w)")
    case Waiting
    with ph show ?thesis by simp
  next
    case Holding
    let ?st' = "set_phase w (Loaded (trade_count st)) st"
    have "system_step (Load w) st = Some ?st'"
      using w Holding by (simp add: system_step_def writer_step_def)
    moreover have "steps_left ?st' < steps_left st"
      using Writer w left Holding
      by (simp add: steps_left_def set_phase_simps set_phase_nth remaining_set_phase)
    ultimately show ?thesis by blast
  next
    case (Loaded c)
    let ?st' = "set_phase w Counted (st\<lparr>trade_count := c + 1\<rparr>)"
    have "system_step (Count w) st = Some ?st'"
      using w Loaded by (simp add: system_step_def writer_step_def)
    moreover have "steps_left ?st' < steps_left st"
      using Writer w left Loaded
      by (simp add: steps_left_def set_phase_simps set_phase_nth remaining_set_phase
          field_update_simps)
    ultimately show ?thesis by blast
  next
    case Counted
    let ?st' = "set_phase w Appended (st\<lparr>records := records st @ [t]\<rparr>)"
    have "system_step (Append w) st = Some ?st'"
      using w Counted tr by (simp add: system_step_def writer_step_def)
    moreover have "steps_left ?st' < steps_left st"
      using Writer w left Counted
      by (simp add: steps_left_def set_phase_simps set_phase_nth remaining_set_phase
          field_update_simps)
    ultimately show ?thesis by blast
  next
    case Appended
    let ?st' = "st\<lparr>lock := Free,
        workers := (workers st)[w := \<lparr>todo = tl (todo (workers st ! w)), phase = Waiting\<rparr>]\<rparr>"
    have "system_step (Release w) st = Some ?st'"
      using w Appended by (simp add: system_step_def writer_step_def)
    moreover have "steps_left ?st' < steps_left st"
      using Writer Appended remaining_release[OF w td]
      by (simp add: steps_left_def)
    ultimately show ?thesis by blast
  qed
qed

lemma system_completes:
  assumes "lock_invariant T st"
  shows "\<exists>es st'. run_system es st = Some st' \<and> (\<forall>w \<in> set (workers st'). todo w = [])"
  using assms
proof (induction "steps_left st" arbitrary: st rule: less_induct)
  case less
  show ?case
  proof (cases "remaining st = 0")
    case True
    have "run_system [] st = Some st" by simp
    with True show ?thesis by (metis remaining_zero_iff)
  next
    case False
    then have "0 < remaining st" by simp
    from next_step[OF less.prems this] obtain e mid where
      step: "system_step e st = Some mid" and less': "steps_left mid < steps_left st" by blast
    from less.hyps[OF less' step_invariant[OF less.prems step]] obtain es st' where
      "run_system es mid = Some st'" "\<forall>w \<in> set (workers st'). todo w = []" by blast
    with step have "run_system (e # es) st = Some st' \<and> (\<forall>w \<in> set (workers st'). todo w = [])"
      by simp
    then show ?thesis by blast
  qed
qed

lemma run_system_append:
  "run_system (es @ es') st =
     (case run_system es st of None \<Rightarrow> None | Some mid \<Rightarrow> run_system es' mid)"
  by (induction es arbitrary: st) (auto split: option.splits)

text \<open>
  C2: in every state an interleaving of the workers' and the reader's steps reaches: when
  every worker has submitted all its trades, the store holds exactly \<open>T\<close> records and its
  trade count is \<open>T\<close>, the number of trades submitted, and the records are the submitted
  trades, each as often as it was submitted; every snapshot a reader has copied
  is whole (its count is the number of its records); at most one worker is inside a
  submission; while trades are left, some step is enabled; and the run can be continued to
  a state in which every worker has submitted all its trades.
\<close>

theorem no_lost_updates:
  assumes "run_system es (start_system work) = Some st"
  shows "((\<forall>w \<in> set (workers st). todo w = []) \<longrightarrow>
           length (records st) = length (concat work)
           \<and> trade_count st = length (concat work)
           \<and> mset (records st) = mset (concat work))
    \<and> (\<forall>c rs. (c, rs) \<in> set (snapshots st) \<longrightarrow> c = length rs)
    \<and> (\<forall>v w. v < length (workers st) \<and> w < length (workers st)
          \<and> phase (workers st ! v) \<noteq> Waiting \<and> phase (workers st ! w) \<noteq> Waiting \<longrightarrow> v = w)
    \<and> ((\<exists>w \<in> set (workers st). todo w \<noteq> []) \<longrightarrow> (\<exists>e. system_step e st \<noteq> None))
    \<and> (\<exists>es' st'. run_system (es @ es') (start_system work) = Some st'
          \<and> (\<forall>w \<in> set (workers st'). todo w = []))"
proof -
  let ?T = "length (concat work)"
  from run_invariant[OF assms start_invariant] have inv: "lock_invariant ?T st" .
  have each_once: "mset (records st) = mset (concat work)"
    if all_in: "\<forall>w \<in> set (workers st). todo w = []"
    using submitted_final[OF all_in inv] submitted_run[OF assms start_invariant]
    by (simp add: submitted_start)
  have final: "length (records st) = ?T \<and> trade_count st = ?T"
    if all_in: "\<forall>w \<in> set (workers st). todo w = []"
  proof -
    from all_in have rem: "remaining st = 0" by (simp add: remaining_zero_iff)
    show ?thesis
    proof (cases "lock st")
      case (Writer w)
      with inv have "w < length (workers st)" "todo (workers st ! w) \<noteq> []"
        by (simp_all add: lock_invariant_def)
      with all_in show ?thesis by (metis nth_mem)
    next
      case Free
      with inv rem show ?thesis by (simp add: lock_invariant_def)
    next
      case Reader
      with inv rem show ?thesis by (simp add: lock_invariant_def)
    qed
  qed
  from inv have snaps: "\<forall>c rs. (c, rs) \<in> set (snapshots st) \<longrightarrow> c = length rs"
    by (simp add: lock_invariant_def snapshots_whole_iff)
  have excl: "\<forall>v w. v < length (workers st) \<and> w < length (workers st)
          \<and> phase (workers st ! v) \<noteq> Waiting \<and> phase (workers st ! w) \<noteq> Waiting \<longrightarrow> v = w"
    using inside_holds_lock[OF inv] by (metis holder.inject)
  from system_completes[OF inv] obtain es' st' where
    "run_system es' st = Some st'" "\<forall>w \<in> set (workers st'). todo w = []" by blast
  then have compl: "\<exists>es' st'. run_system (es @ es') (start_system work) = Some st'
      \<and> (\<forall>w \<in> set (workers st'). todo w = [])"
    by (auto simp: run_system_append assms)
  from final each_once snaps excl system_progress[OF inv] compl show ?thesis by blast
qed

theorem no_lost_updates_witness:
  "(\<exists>st. run_system two_workers (start_system [[trade_a], [trade_b]]) = Some st
      \<and> list_all (\<lambda>w. todo w = []) (workers st)
      \<and> length (records st) = 2 \<and> trade_count st = 2 \<and> snapshots st = [(1, [trade_b])])
   \<and> run_system [Acquire 1, Acquire 0] (start_system [[trade_a], [trade_b]]) = None
   \<and> run_system [Acquire 1, Load 1, Count 1, ReaderAcquire] (start_system [[trade_a], [trade_b]]) = None"
proof -
  let ?final = "\<lparr>lock = Free, trade_count = 2, records = [trade_b, trade_a],
      workers = [\<lparr>todo = [], phase = Waiting\<rparr>, \<lparr>todo = [], phase = Waiting\<rparr>],
      snapshots = [(1, [trade_b])]\<rparr>"
  have r: "run_system two_workers (start_system [[trade_a], [trade_b]]) = Some ?final"
    by (simp add: two_workers_def start_system_def system_step_def writer_step_def
        set_phase_def Let_def)
  have fin: "\<forall>w \<in> set (workers ?final). todo w = []" by simp
  from no_lost_updates[OF r] fin
  have "length (records ?final) = length (concat [[trade_a], [trade_b]])
      \<and> trade_count ?final = length (concat [[trade_a], [trade_b]])"
    by blast
  then have "length (records ?final) = 2 \<and> trade_count ?final = 2" by simp
  with r have first: "\<exists>st. run_system two_workers (start_system [[trade_a], [trade_b]]) = Some st
      \<and> list_all (\<lambda>w. todo w = []) (workers st)
      \<and> length (records st) = 2 \<and> trade_count st = 2 \<and> snapshots st = [(1, [trade_b])]"
    by simp
  have "run_system [Acquire 1, Acquire 0] (start_system [[trade_a], [trade_b]]) = None"
    by (simp add: start_system_def system_step_def writer_step_def set_phase_def Let_def)
  moreover have "run_system [Acquire 1, Load 1, Count 1, ReaderAcquire]
      (start_system [[trade_a], [trade_b]]) = None"
    by (simp add: start_system_def system_step_def writer_step_def set_phase_def Let_def)
  ultimately show ?thesis using first by simp
qed

section \<open>Properties of position keeping and of the statistics\<close>

lemma book_ok: "metrics_ok m \<Longrightarrow> metrics_ok (book z x m)"
  by (simp add: metrics_ok_def book_def Let_def)

lemma recordTrade_ok:
  assumes "store_ok st"
  shows "store_ok (recordTrade (position_keeping z) s t i st)"
  using assms
  by (simp add: store_ok_def recordTrade_def position_keeping_def keep_def Let_def book_ok)

lemma count_error_ok: "store_ok st \<Longrightarrow> store_ok (count_error sid k st)"
  by (simp add: store_ok_def count_error_def)

lemma collect_ok:
  assumes "store_ok st"
  shows "store_ok (collect (position_keeping z) t st s)"
  using assms
  by (simp add: collect_def recordTrade_ok count_error_ok split: evaluation.splits option.splits)

lemma foldl_collect_ok:
  "store_ok st \<Longrightarrow> store_ok (foldl (collect (position_keeping z) t) st ss)"
  by (induction ss arbitrary: st) (simp_all add: collect_ok)

lemma process_tick_ok:
  "store_ok st \<Longrightarrow> store_ok (process_tick (position_keeping z) registry st t)"
  by (simp add: process_tick_def foldl_collect_ok)

lemma process_batch_ok:
  "store_ok st \<Longrightarrow> store_ok (process_batch (position_keeping z) registry ticks st)"
  unfolding process_batch_def
  by (induction ticks arbitrary: st) (simp_all add: process_tick_ok)

lemma fresh_store_ok: "store_ok fresh_store"
  by (simp add: store_ok_def metrics_ok_def fresh_store_def no_trades_def)

lemma length_three_way:
  "length xs = length (filter (\<lambda>t. pnl t > 0) xs) + length (filter (\<lambda>t. pnl t < 0) xs)
     + length (filter (\<lambda>t. pnl t = 0) xs)"
  by (induction xs) auto

text \<open>
  C1, as stated: the number of executed trades is the number of winning trades plus the
  number of losing trades. It fails on the list holding one executed trade with P&L zero:
  one trade is executed, none is winning and none is losing.
\<close>

theorem executed_count_counterexample:
  "length (executedTrades [flat_trade])
     \<noteq> length (winningTrades [flat_trade]) + length (losingTrades [flat_trade])"
  by (simp add: executedTrades_def winningTrades_def losingTrades_def flat_trade_def)

text \<open>
  C1, amended: the metrics of the store keep the invariant after every mutation: in every
  state a batch of ticks reaches from the fresh store, and after every recorded trade and
  every counted error, the net P&L is gross profit minus gross loss and the total count is
  winning plus losing, for the global metrics and for every strategy (the store counts a
  trade with P&L zero on one side). The statistics of the dashboard do not: for every list
  of trades the number of executed trades is the number of winning trades plus the number
  of losing trades plus the number of executed trades with P&L exactly zero, which are
  counted on neither side; the two-way sum holds exactly when no executed trade has P&L
  zero.
\<close>

theorem executed_count_split:
  "store_ok (process_batch (position_keeping z) registry ticks fresh_store)
   \<and> (store_ok st \<longrightarrow>
        store_ok (recordTrade (position_keeping z) s t i st)
        \<and> store_ok (count_error sid k st))
   \<and> length (executedTrades ts)
        = length (winningTrades ts) + length (losingTrades ts) + length (breakEvenTrades ts)
   \<and> (length (executedTrades ts) = length (winningTrades ts) + length (losingTrades ts)
        \<longleftrightarrow> breakEvenTrades ts = [])"
proof -
  have split: "length (executedTrades ts)
      = length (winningTrades ts) + length (losingTrades ts) + length (breakEvenTrades ts)"
    unfolding winningTrades_def losingTrades_def breakEvenTrades_def
    by (rule length_three_way)
  then have iff: "length (executedTrades ts) = length (winningTrades ts) + length (losingTrades ts)
      \<longleftrightarrow> breakEvenTrades ts = []"
    by simp
  have reach: "store_ok (process_batch (position_keeping z) registry ticks fresh_store)"
    using fresh_store_ok by (rule process_batch_ok)
  from reach split iff recordTrade_ok count_error_ok show ?thesis by blast
qed

lemma scenario_dispatch:
  "dispatch [sma, momentum] (two_ticks ! 0) = [sma, momentum]"
  "dispatch [sma, momentum] (two_ticks ! 1) = [sma, momentum]"
  by (simp_all add: dispatch_def interested_def sma_def momentum_def two_ticks_def)

lemma after_first_tick:
  "process_tick (position_keeping z) [sma, momentum] fresh_store (two_ticks ! 0) =
     fresh_store\<lparr>
       globalMetrics := book z 0 no_trades,
       strategyMetrics := (strategyMetrics fresh_store)
         (''BTC_SMA'' := \<lparr>position = 1, entryPrice = 45000, own = book z 0 no_trades\<rparr>),
       history := [\<lparr>entry_instrument = ''BTC'', entry_strategy = ''BTC_SMA'', entry_action = Buy,
         entry_price = 45000, entry_quantity = 1, entry_time = 0, realizedPnL = 0\<rparr>]\<rparr>"
  by (simp add: process_tick_def dispatch_def interested_def collect_def recordTrade_def
      position_keeping_def keep_def realized_def closes_def signed_quantity_def
      sma_def momentum_def two_ticks_def fresh_store_def Let_def)

lemma scenario_unfold:
  "scenario_store z =
     process_tick (position_keeping z) [sma, momentum]
       (process_tick (position_keeping z) [sma, momentum] fresh_store (two_ticks ! 0))
       (two_ticks ! 1)"
  by (simp add: scenario_store_def process_batch_def two_ticks_def)

lemma scenario_result:
  "history (scenario_store z) =
     [\<lparr>entry_instrument = ''BTC'', entry_strategy = ''BTC_SMA'', entry_action = Buy,
        entry_price = 45000, entry_quantity = 1, entry_time = 0, realizedPnL = 0\<rparr>,
      \<lparr>entry_instrument = ''BTC'', entry_strategy = ''BTC_SMA'', entry_action = Sell,
        entry_price = 45500, entry_quantity = 1, entry_time = 60, realizedPnL = 500\<rparr>]"
  "globalMetrics (scenario_store z) = book z 500 (book z 0 no_trades)"
  "strategyMetrics (scenario_store z) ''BTC_SMA'' =
     \<lparr>position = 0, entryPrice = 45000, own = book z 500 (book z 0 no_trades)\<rparr>"
  "strategyMetrics (scenario_store z) ''BTC_Momentum'' =
     \<lparr>position = 0, entryPrice = 0, own = no_trades\<rparr>"
  unfolding scenario_unfold after_first_tick
  by (simp_all add: process_tick_def dispatch_def interested_def collect_def recordTrade_def
      position_keeping_def keep_def realized_def closes_def signed_quantity_def
      sma_def momentum_def two_ticks_def fresh_store_def Let_def)

text \<open>
  C5: a trade that closes or reduces a position, on a quantity within the position, is
  recorded for its strategy with the realized P&L (exit price - entry price) * quantity,
  with the sign of the position (plus for a long position, minus for a short one), and
  raises the global trade count by one; a trade that does not close records no P&L. In
  the scenario both strategies are evaluated on each of the two ticks, the history is the
  pair of the buy at 45000, with P&L 0, and the sell at 45500, with P&L exactly 500, both
  of \<^verbatim>\<open>BTC_SMA\<close>, whose net P&L is then 500 and whose position is flat, and the global
  trade count is 2.
\<close>

theorem closing_trade_realized_pnl:
  "(closes (strategyMetrics st (strategyId s)) (intent_action i)
      \<and> intent_quantity i \<le> \<bar>position (strategyMetrics st (strategyId s))\<bar> \<longrightarrow>
      history (recordTrade (position_keeping z) s t i st) = history st @
        [\<lparr>entry_instrument = tick_instrument t, entry_strategy = strategyId s,
          entry_action = intent_action i, entry_price = tick_price t,
          entry_quantity = intent_quantity i, entry_time = tick_time t,
          realizedPnL = (tick_price t - entryPrice (strategyMetrics st (strategyId s)))
                          * intent_quantity i * sgn (position (strategyMetrics st (strategyId s)))\<rparr>]
      \<and> total_trades (globalMetrics (recordTrade (position_keeping z) s t i st))
          = total_trades (globalMetrics st) + 1)
   \<and> (\<not> closes (strategyMetrics st (strategyId s)) (intent_action i) \<longrightarrow>
        realizedPnL (last (history (recordTrade (position_keeping z) s t i st))) = 0)
   \<and> dispatch [sma, momentum] (two_ticks ! 0) = [sma, momentum]
   \<and> dispatch [sma, momentum] (two_ticks ! 1) = [sma, momentum]
   \<and> history (scenario_store z) =
       [\<lparr>entry_instrument = ''BTC'', entry_strategy = ''BTC_SMA'', entry_action = Buy,
          entry_price = 45000, entry_quantity = 1, entry_time = 0, realizedPnL = 0\<rparr>,
        \<lparr>entry_instrument = ''BTC'', entry_strategy = ''BTC_SMA'', entry_action = Sell,
          entry_price = 45500, entry_quantity = 1, entry_time = 60, realizedPnL = 500\<rparr>]
   \<and> total_trades (globalMetrics (scenario_store z)) = 2
   \<and> netPnL (own (strategyMetrics (scenario_store z) ''BTC_SMA'')) = 500
   \<and> position (strategyMetrics (scenario_store z) ''BTC_SMA'') = 0
   \<and> total_trades (own (strategyMetrics (scenario_store z) ''BTC_Momentum'')) = 0"
proof (intro conjI impI)
  assume "closes (strategyMetrics st (strategyId s)) (intent_action i)
      \<and> intent_quantity i \<le> \<bar>position (strategyMetrics st (strategyId s))\<bar>"
  then have c: "closes (strategyMetrics st (strategyId s)) (intent_action i)"
    and q: "min (intent_quantity i) \<bar>position (strategyMetrics st (strategyId s))\<bar>
      = intent_quantity i" by simp_all
  show "history (recordTrade (position_keeping z) s t i st) = history st @
        [\<lparr>entry_instrument = tick_instrument t, entry_strategy = strategyId s,
          entry_action = intent_action i, entry_price = tick_price t,
          entry_quantity = intent_quantity i, entry_time = tick_time t,
          realizedPnL = (tick_price t - entryPrice (strategyMetrics st (strategyId s)))
                          * intent_quantity i * sgn (position (strategyMetrics st (strategyId s)))\<rparr>]"
    by (simp add: recordTrade_def position_keeping_def realized_def c q Let_def)
  show "total_trades (globalMetrics (recordTrade (position_keeping z) s t i st))
          = total_trades (globalMetrics st) + 1"
    by (simp add: recordTrade_def position_keeping_def book_def Let_def)
next
  assume "\<not> closes (strategyMetrics st (strategyId s)) (intent_action i)"
  then show "realizedPnL (last (history (recordTrade (position_keeping z) s t i st))) = 0"
    by (simp add: recordTrade_def position_keeping_def realized_def Let_def)
next
  show "dispatch [sma, momentum] (two_ticks ! 0) = [sma, momentum]"
    and "dispatch [sma, momentum] (two_ticks ! 1) = [sma, momentum]"
    by (rule scenario_dispatch)+
  show "history (scenario_store z) =
       [\<lparr>entry_instrument = ''BTC'', entry_strategy = ''BTC_SMA'', entry_action = Buy,
          entry_price = 45000, entry_quantity = 1, entry_time = 0, realizedPnL = 0\<rparr>,
        \<lparr>entry_instrument = ''BTC'', entry_strategy = ''BTC_SMA'', entry_action = Sell,
          entry_price = 45500, entry_quantity = 1, entry_time = 60, realizedPnL = 500\<rparr>]"
    by (rule scenario_result)
  show "total_trades (globalMetrics (scenario_store z)) = 2"
    by (simp add: scenario_result book_def no_trades_def Let_def)
  show "netPnL (own (strategyMetrics (scenario_store z) ''BTC_SMA'')) = 500"
    by (simp add: scenario_result book_def no_trades_def Let_def)
  show "position (strategyMetrics (scenario_store z) ''BTC_SMA'') = 0"
    by (simp add: scenario_result)
  show "total_trades (own (strategyMetrics (scenario_store z) ''BTC_Momentum'')) = 0"
    by (simp add: scenario_result no_trades_def)
qed

theorem closing_trade_realized_pnl_witness:
  "closes (strategyMetrics long_one (strategyId sma)) (intent_action sell_one)
   \<and> intent_quantity sell_one \<le> \<bar>position (strategyMetrics long_one (strategyId sma))\<bar>
   \<and> realizedPnL (last (history
         (recordTrade (position_keeping True) sma (two_ticks ! 1) sell_one long_one))) = 500
   \<and> entry_strategy (last (history
         (recordTrade (position_keeping True) sma (two_ticks ! 1) sell_one long_one))) = ''BTC_SMA''
   \<and> length (history
         (recordTrade (position_keeping True) sma (two_ticks ! 1) sell_one long_one)) = 2"
proof -
  have sid: "strategyId sma = ''BTC_SMA''" by (simp add: sma_def)
  have own: "strategyMetrics long_one (strategyId sma) =
      \<lparr>position = 1, entryPrice = 45000, own = book True 0 no_trades\<rparr>"
    and h: "length (history long_one) = 1"
    unfolding long_one_def after_first_tick sid by simp_all
  have c: "closes (strategyMetrics long_one (strategyId sma)) (intent_action sell_one)"
    and q: "intent_quantity sell_one \<le> \<bar>position (strategyMetrics long_one (strategyId sma))\<bar>"
    unfolding own by (simp_all add: closes_def sell_one_def)
  from closing_trade_realized_pnl[of long_one sma sell_one True "two_ticks ! 1"] c q
  have "history (recordTrade (position_keeping True) sma (two_ticks ! 1) sell_one long_one)
      = history long_one @
        [\<lparr>entry_instrument = tick_instrument (two_ticks ! 1), entry_strategy = strategyId sma,
          entry_action = intent_action sell_one, entry_price = tick_price (two_ticks ! 1),
          entry_quantity = intent_quantity sell_one, entry_time = tick_time (two_ticks ! 1),
          realizedPnL = (tick_price (two_ticks ! 1)
                           - entryPrice (strategyMetrics long_one (strategyId sma)))
                          * intent_quantity sell_one
                          * sgn (position (strategyMetrics long_one (strategyId sma)))\<rparr>]"
    by blast
  then have "history (recordTrade (position_keeping True) sma (two_ticks ! 1) sell_one long_one)
      = history long_one @
        [\<lparr>entry_instrument = ''BTC'', entry_strategy = ''BTC_SMA'', entry_action = Sell,
          entry_price = 45500, entry_quantity = 1, entry_time = 60, realizedPnL = 500\<rparr>]"
    using own by (simp add: sid sell_one_def two_ticks_def)
  then show ?thesis
    using c q h by simp
qed

theorem executed_count_split_witness:
  "store_ok fresh_store
   \<and> store_ok (recordTrade (position_keeping True) sma (two_ticks ! 0)
        \<lparr>intent_action = Buy, intent_quantity = 1\<rparr> fresh_store)
   \<and> total_trades (globalMetrics (scenario_store False)) = 2
   \<and> winning_trades (globalMetrics (scenario_store False)) = 1
   \<and> losing_trades (globalMetrics (scenario_store False)) = 1
   \<and> grossProfit (globalMetrics (scenario_store False)) = 500
   \<and> grossLoss (globalMetrics (scenario_store False)) = 0
   \<and> netPnL (globalMetrics (scenario_store False)) = 500"
proof -
  have ok: "store_ok fresh_store" by (rule fresh_store_ok)
  from executed_count_split[where st = fresh_store and z = True and s = sma
      and t = "two_ticks ! 0" and i = "\<lparr>intent_action = Buy, intent_quantity = 1\<rparr>"] ok
  have "store_ok (recordTrade (position_keeping True) sma (two_ticks ! 0)
        \<lparr>intent_action = Buy, intent_quantity = 1\<rparr> fresh_store)"
    by blast
  with ok show ?thesis
    by (simp add: scenario_result book_def no_trades_def Let_def)
qed

end
